theory Spec2Isabelle
  imports Main "HOL-Library.Monad_Syntax"
begin

section \<open>Data model of \<open>make_pi_4.c\<close>\<close>

text \<open>
  The bignum of the C source: \<open>signed long power\<close>, \<open>unsigned long sig_digs\<close>,
  \<open>char *digits\<close> and \<open>unsigned long precision\<close>.  The digit array is a list of
  integers (the \<open>char\<close> values; every value the arithmetic produces from decimal
  digits lies between \<open>-1\<close> and \<open>99\<close>, inside the range of \<open>char\<close>), the unsigned
  fields are naturals, \<open>long\<close> values are integers.

  An operation returns an \<open>option\<close>: \<open>None\<close> means that the call has no defined
  result, because it reads or writes an array outside its bounds or because it never
  returns.  A C function with an \<open>int\<close> status returns the pair of the status and
  the bignum behind the result pointer.
\<close>

text \<open>The field \<open>power\<close> of the C struct is \<open>power10\<close> here.\<close>

record bignum =
  power10 :: int
  sig_digs :: nat
  digits :: "int list"
  precision :: nat

record limits =
  threadid :: int
  lowlimit :: int
  highlimit :: int
  totaliterations :: int
  max_digits :: int

subsection \<open>Array accesses\<close>

definition rd :: "int list \<Rightarrow> int \<Rightarrow> int option" where
  "rd xs i = (if 0 \<le> i \<and> i < int (length xs) then Some (xs ! nat i) else None)"

definition wr :: "int list \<Rightarrow> int \<Rightarrow> int \<Rightarrow> int list option" where
  "wr xs i v = (if 0 \<le> i \<and> i < int (length xs) then Some (xs[nat i := v]) else None)"

subsection \<open>\<open>bignum_init\<close>, \<open>bignum_reset\<close>, \<open>bignum_set\<close>\<close>

definition bignum_init :: "nat \<Rightarrow> bignum" where
  "bignum_init p = \<lparr>power10 = 0, sig_digs = 0, digits = replicate p 0, precision = p\<rparr>"

function reset_loop :: "int \<Rightarrow> nat \<Rightarrow> int list \<Rightarrow> int list option" where
  "reset_loop i n ds =
     (if i < int n then do { ds' \<leftarrow> wr ds i 0; reset_loop (i + 1) n ds' } else Some ds)"
  by pat_completeness auto
termination
  by (relation "measure (\<lambda>(i, n, ds). nat (int n - i))") auto

definition bignum_reset :: "bignum \<Rightarrow> bignum option" where
  "bignum_reset numval =
     (if sig_digs numval > 0
      then do {
        ds \<leftarrow> reset_loop 0 (sig_digs numval) (digits numval);
        Some (numval\<lparr>digits := ds, power10 := 0, sig_digs := 0\<rparr>) }
      else Some numval)"

function set_loop :: "int \<Rightarrow> nat \<Rightarrow> int list \<Rightarrow> int list \<Rightarrow> int list option" where
  "set_loop i n newd oldd =
     (if i < int n
      then do { v \<leftarrow> rd oldd i; newd' \<leftarrow> wr newd i v; set_loop (i + 1) n newd' oldd }
      else Some newd)"
  by pat_completeness auto
termination
  by (relation "measure (\<lambda>(i, n, newd, oldd). nat (int n - i))") auto

definition bignum_set :: "bignum \<Rightarrow> bignum \<Rightarrow> bignum option" where
  "bignum_set newnum oldnum =
     (if sig_digs oldnum > 0
      then (let sd = (if sig_digs oldnum > precision newnum
                      then precision newnum else sig_digs oldnum)
            in do {
              ds \<leftarrow> set_loop 0 sd (digits newnum) (digits oldnum);
              Some (newnum\<lparr>power10 := power10 oldnum, sig_digs := sd, digits := ds\<rparr>) })
      else bignum_reset newnum)"

subsection \<open>\<open>bignum_set_int\<close>\<close>

text \<open>
  The boolean \<open>ok\<close> of the functions that call \<open>calloc\<close> for a scratch word says
  whether that allocation succeeds.  \<open>split_loop\<close> is the loop that stores the decimal
  digits of the integer backwards, \<open>lead_loop\<close> the scan for the first non-zero entry,
  \<open>store_loop\<close> the copy into the bignum.
\<close>

function split_loop :: "int \<Rightarrow> int \<Rightarrow> int list \<Rightarrow> (int \<times> int list) option" where
  "split_loop temp_int counter temp_word =
     (if temp_int > 0
      then do {
        tw \<leftarrow> wr temp_word counter (temp_int mod 10);
        split_loop (temp_int div 10) (counter + 1) tw }
      else Some (counter, temp_word))"
  by pat_completeness auto
termination
  by (relation "measure (\<lambda>(t, c, w). nat t)") auto

function lead_loop :: "int \<Rightarrow> int list \<Rightarrow> int option" where
  "lead_loop leadingzeros temp_word =
     do {
       v \<leftarrow> rd temp_word leadingzeros;
       if v \<noteq> 0 then Some leadingzeros else lead_loop (leadingzeros + 1) temp_word }"
  by pat_completeness auto
termination
  by (relation "measure (\<lambda>(l, w). nat (int (length w) - l))")
     (auto simp: rd_def split: if_splits)

function store_loop :: "int \<Rightarrow> int \<Rightarrow> int \<Rightarrow> int list \<Rightarrow> int list \<Rightarrow> int list option" where
  "store_loop temp_int n counter ds temp_word =
     (if temp_int < n
      then do {
        v \<leftarrow> rd temp_word (counter - temp_int - 1);
        ds' \<leftarrow> wr ds temp_int v;
        store_loop (temp_int + 1) n counter ds' temp_word }
      else Some ds)"
  by pat_completeness auto
termination
  by (relation "measure (\<lambda>(t, n, c, ds, w). nat (n - t))") auto

definition bignum_set_int :: "bool \<Rightarrow> bignum \<Rightarrow> int \<Rightarrow> (int \<times> bignum) option" where
  "bignum_set_int ok numval intval =
     (if intval > 0
      then (if \<not> ok then Some (0, numval)
            else do {
              (counter, temp_word) \<leftarrow> split_loop intval 0 (replicate (precision numval) 0);
              leadingzeros \<leftarrow> lead_loop 0 temp_word;
              ds \<leftarrow> store_loop 0 (counter - leadingzeros) counter (digits numval) temp_word;
              Some (1, numval\<lparr>power10 := counter - 1, digits := ds,
                               sig_digs := nat (counter - leadingzeros)\<rparr>) })
      else do { r \<leftarrow> bignum_reset numval; Some (1, r) })"

subsection \<open>\<open>bignum_print\<close>\<close>

text \<open>
  \<open>printf_d\<close> is the text that \<open>printf("%d", (int)c)\<close> emits.  The print
  functions take the text emitted so far and return it extended.
\<close>

fun nat_dec :: "nat \<Rightarrow> string" where
  "nat_dec n =
     (if n < 10 then [''0123456789'' ! n]
      else nat_dec (n div 10) @ [''0123456789'' ! (n mod 10)])"

declare nat_dec.simps [simp del]

definition printf_d :: "int \<Rightarrow> string" where
  "printf_d v = (if v < 0 then CHR ''-'' # nat_dec (nat (- v)) else nat_dec (nat v))"

function print_loop :: "int \<Rightarrow> int \<Rightarrow> int list \<Rightarrow> string \<Rightarrow> string option" where
  "print_loop i n ds out =
     (if i < n
      then do { v \<leftarrow> rd ds i; print_loop (i + 1) n ds (out @ printf_d v) }
      else Some out)"
  by pat_completeness auto
termination
  by (relation "measure (\<lambda>(i, n, ds, out). nat (n - i))") auto

definition bignum_print :: "bignum \<Rightarrow> int \<Rightarrow> string option" where
  "bignum_print numval maxdigits =
     (if sig_digs numval = 0 then Some ''0''
      else
        let limit = (if maxdigits > 0 \<and> maxdigits < int (sig_digs numval)
                     then maxdigits else int (sig_digs numval))
        in do {
          out \<leftarrow>
            (if power10 numval < 0
             then print_loop 0 limit (digits numval)
                    (''0.'' @ replicate (nat (- power10 numval - 1)) (CHR ''0''))
             else if int (sig_digs numval) > power10 numval + 1
             then do {
               out1 \<leftarrow> print_loop 0 (power10 numval + 1) (digits numval) [];
               print_loop (power10 numval + 1) limit (digits numval)
                 (if limit > power10 numval + 1 then out1 @ ''.'' else out1) }
             else print_loop 0 (int (sig_digs numval)) (digits numval) []);
          Some (if power10 numval > 0 \<and> power10 numval + 1 > int (sig_digs numval)
                then out @ replicate (nat (power10 numval + 1 - int (sig_digs numval))) (CHR ''0'')
                else out) })"

subsection \<open>\<open>bignum_add\<close>\<close>

text \<open>
  \<open>shift_loop\<close> copies the operand of smaller power into the result, moved right by
  the difference of the powers; \<open>add_loop\<close> is the main addition loop, from the last
  digit to the first, which also counts the trailing zeros of the sum; \<open>carry_loop\<close>
  moves the digits one place to the right when the first digit produced a carry.
\<close>

function shift_loop ::
  "int \<Rightarrow> int \<Rightarrow> int \<Rightarrow> int \<Rightarrow> int list \<Rightarrow> int list \<Rightarrow> int list option" where
  "shift_loop i transfertotal startdigit difference rds sds =
     (if i < transfertotal
      then do {
        rds' \<leftarrow> (if startdigit - difference \<ge> 0
                 then do { v \<leftarrow> rd sds (startdigit - difference); wr rds startdigit v }
                 else Some rds);
        shift_loop (i + 1) transfertotal (startdigit - 1) difference rds' sds }
      else Some rds)"
  by pat_completeness auto
termination
  by (relation "measure (\<lambda>(i, t, s, d, r, sm). nat (t - i))") auto

function add_loop ::
  "int \<Rightarrow> nat \<Rightarrow> int \<Rightarrow> int list \<Rightarrow> int list \<Rightarrow> int \<Rightarrow> int \<Rightarrow> int
     \<Rightarrow> (int list \<times> int \<times> int) option" where
  "add_loop i n startdigitcopy rds bds carry trailingzeros zerocount =
     (if i < int n
      then do {
        r0 \<leftarrow> rd rds (startdigitcopy - i - 1);
        b \<leftarrow> rd bds (startdigitcopy - i - 1);
        let s = r0 + (b + carry);
        let s' = (if s \<ge> 10 then s - 10 else s);
        let carry' = (if s \<ge> 10 then 1 else 0);
        rds' \<leftarrow> wr rds (startdigitcopy - i - 1) s';
        let zerocount' = (if trailingzeros = 1 \<and> s' = 0 then zerocount + 1 else zerocount);
        let trailingzeros' = (if trailingzeros = 1 \<and> s' \<noteq> 0 then 0 else trailingzeros);
        add_loop (i + 1) n startdigitcopy rds' bds carry' trailingzeros' zerocount' }
      else Some (rds, carry, zerocount))"
  by pat_completeness auto
termination
  by (relation "measure (\<lambda>(i, n, s, r, b, c, t, z). nat (int n - i))") auto

function carry_loop :: "int \<Rightarrow> int \<Rightarrow> int \<Rightarrow> int list \<Rightarrow> int list option" where
  "carry_loop i transfertotal startdigitcopy rds =
     (if i < transfertotal
      then do {
        rds' \<leftarrow> (if startdigitcopy \<ge> 0
                 then do { v \<leftarrow> rd rds startdigitcopy; wr rds (startdigitcopy + 1) v }
                 else if startdigitcopy + 1 \<ge> 0 then wr rds (startdigitcopy + 1) 0
                 else Some rds);
        carry_loop (i + 1) transfertotal (startdigitcopy - 1) rds' }
      else Some rds)"
  by pat_completeness auto
termination
  by (relation "measure (\<lambda>(i, t, s, r). nat (t - i))") auto

text \<open>
  \<open>add_aligned\<close> is the body of \<open>bignum_add\<close> from the choice of \<open>bigger\<close> and
  \<open>smaller\<close> on; the result has been reset and none of the shortcuts applies, so
  the difference of the powers is between 0 and the precision of the result.
  \<open>add_finish\<close> is its last part, after the main loop: the trailing zeros are taken
  from \<open>sig_digs\<close> and a carry out of the first digit is put in front.
\<close>

definition add_finish ::
  "bignum \<Rightarrow> bignum \<Rightarrow> nat \<Rightarrow> int list \<times> int \<times> int \<Rightarrow> (int \<times> bignum) option" where
  "add_finish resultnum bigger sd res =
     (case res of (ds2, carry, zerocount) \<Rightarrow>
        let sd2 = sd - nat zerocount in
        if carry > 0
        then do {
          let transfertotal2 = (if int sd2 = int (precision resultnum)
                                then int sd2 - 1 else int sd2);
          ds3 \<leftarrow> carry_loop 0 transfertotal2 (transfertotal2 - 1) ds2;
          ds4 \<leftarrow> wr ds3 0 carry;
          Some (1, resultnum\<lparr>power10 := power10 bigger + 1, sig_digs := sd2 + 1,
                              digits := ds4\<rparr>) }
        else Some (1, resultnum\<lparr>power10 := power10 bigger, sig_digs := sd2,
                                digits := ds2\<rparr>))"

definition add_aligned :: "bignum \<Rightarrow> bignum \<Rightarrow> bignum \<Rightarrow> (int \<times> bignum) option" where
  "add_aligned resultnum bigger smaller =
     (let difference = power10 bigger - power10 smaller;
          over = (int (sig_digs smaller) + difference > int (precision resultnum));
          startdigit = (if over then int (precision resultnum) - difference
                        else int (sig_digs smaller) + difference);
          transfertotal = (if over then startdigit else int (sig_digs smaller));
          sd = (if sig_digs bigger > nat startdigit then sig_digs bigger else nat startdigit)
      in do {
        ds1 \<leftarrow> shift_loop 0 transfertotal (startdigit - 1) difference
                 (digits resultnum) (digits smaller);
        res \<leftarrow> add_loop 0 sd (int sd) ds1 (digits bigger) 0 1 0;
        add_finish resultnum bigger sd res })"

definition bignum_add :: "bignum \<Rightarrow> bignum \<Rightarrow> bignum \<Rightarrow> (int \<times> bignum) option" where
  "bignum_add resultnum leftnum rightnum =
     do {
       r \<leftarrow> bignum_reset resultnum;
       if sig_digs leftnum = 0 \<and> sig_digs rightnum > 0
       then do { r' \<leftarrow> bignum_set r rightnum; Some (1, r') }
       else if sig_digs rightnum = 0 \<and> sig_digs leftnum > 0
       then do { r' \<leftarrow> bignum_set r leftnum; Some (1, r') }
       else if sig_digs leftnum = 0 \<and> sig_digs rightnum = 0 then Some (1, r)
       else if power10 leftnum - power10 rightnum > 0
               \<and> power10 leftnum - power10 rightnum > int (precision r)
       then do { r' \<leftarrow> bignum_set r leftnum; Some (1, r') }
       else if power10 rightnum - power10 leftnum > 0
               \<and> power10 rightnum - power10 leftnum > int (precision r)
       then do { r' \<leftarrow> bignum_set r rightnum; Some (1, r') }
       else if power10 leftnum - power10 rightnum \<ge> 0
       then add_aligned r leftnum rightnum
       else add_aligned r rightnum leftnum }"

text \<open>
  In the wrappers \<open>bignum_init\<close> gives the temporary bignum; \<open>ok\<close> is passed to the
  functions that allocate a scratch word.
\<close>

definition bignum_add_int :: "bool \<Rightarrow> bignum \<Rightarrow> bignum \<Rightarrow> int \<Rightarrow> (int \<times> bignum) option" where
  "bignum_add_int ok resultnum leftnum rightint =
     do {
       r \<leftarrow> bignum_reset resultnum;
       if rightint = 0 \<and> sig_digs leftnum > 0
       then do { r' \<leftarrow> bignum_set r leftnum; Some (1, r') }
       else if sig_digs leftnum = 0 \<and> rightint > 0 then bignum_set_int ok r rightint
       else if sig_digs leftnum = 0 \<and> rightint = 0 then Some (1, r)
       else do {
         (st, tempnum) \<leftarrow> bignum_set_int ok (bignum_init (precision r)) rightint;
         if st = 0 then Some (0, r) else bignum_add r leftnum tempnum } }"

subsection \<open>\<open>bignum_mult\<close>\<close>

text \<open>
  C division and remainder truncate towards zero.  The test
  \<open>(leftnum->sig_digs - rightnum->sig_digs) >= 0L\<close> of the source compares an unsigned
  difference with zero and always holds, so \<open>bigger\<close> is the left operand and
  \<open>smaller\<close> the right one.
\<close>

definition c_div :: "int \<Rightarrow> int \<Rightarrow> int" where
  "c_div a b = (if (a < 0) = (b < 0) then \<bar>a\<bar> div \<bar>b\<bar> else - (\<bar>a\<bar> div \<bar>b\<bar>))"

definition c_mod :: "int \<Rightarrow> int \<Rightarrow> int" where
  "c_mod a b = a - b * c_div a b"

function mult_row ::
  "int \<Rightarrow> nat \<Rightarrow> int \<Rightarrow> int \<Rightarrow> int \<Rightarrow> int \<Rightarrow> int list \<Rightarrow> int list \<Rightarrow> int
     \<Rightarrow> (int list \<times> int) option" where
  "mult_row smallcounter bsig bigcounter sdigit bigstart twolen bds temp_word carry =
     (if smallcounter < int bsig
      then do {
        t \<leftarrow> rd temp_word (twolen - smallcounter - bigcounter - 1);
        b \<leftarrow> rd bds (bigstart - smallcounter);
        let v = t + (carry + sdigit * b);
        tw \<leftarrow> wr temp_word (twolen - smallcounter - bigcounter - 1) (c_mod v 10);
        mult_row (smallcounter + 1) bsig bigcounter sdigit bigstart twolen bds tw (c_div v 10) }
      else Some (temp_word, carry))"
  by pat_completeness auto
termination
  by (relation "measure (\<lambda>(sc, bsig, r). nat (int bsig - sc))") auto

function mult_loop ::
  "int \<Rightarrow> nat \<Rightarrow> nat \<Rightarrow> int \<Rightarrow> int list \<Rightarrow> int list \<Rightarrow> int list \<Rightarrow> int
     \<Rightarrow> (int list \<times> int) option" where
  "mult_loop bigcounter ssig bsig twolen sds bds temp_word carry =
     (if bigcounter < int ssig
      then do {
        sdigit \<leftarrow> rd sds (int ssig - 1 - bigcounter);
        if sdigit \<noteq> 0
        then do {
          (tw, carry') \<leftarrow> mult_row 0 bsig bigcounter sdigit (int bsig - 1) twolen bds temp_word 0;
          tw' \<leftarrow> wr tw (twolen - bigcounter - int bsig - 1) carry';
          mult_loop (bigcounter + 1) ssig bsig twolen sds bds tw' carry' }
        else mult_loop (bigcounter + 1) ssig bsig twolen sds bds temp_word carry }
      else Some (temp_word, carry))"
  by pat_completeness auto
termination
  by (relation "measure (\<lambda>(bc, ssig, r). nat (int ssig - bc))") auto

text \<open>
  \<open>zero_loop\<close> is the scan for trailing zeros, from index \<open>i\<close> downwards, that ends
  \<open>bignum_mult\<close> and \<open>bignum_divide\<close>; it returns the count.
\<close>

function zero_loop :: "int \<Rightarrow> int list \<Rightarrow> int \<Rightarrow> int option" where
  "zero_loop i xs zerocount =
     do {
       v \<leftarrow> rd xs i;
       if v = 0 then zero_loop (i - 1) xs (zerocount + 1) else Some zerocount }"
  by pat_completeness auto
termination
  by (relation "measure (\<lambda>(i, xs, z). nat (i + 1))") (auto simp: rd_def split: if_splits)

function copy_loop :: "int \<Rightarrow> nat \<Rightarrow> int \<Rightarrow> int list \<Rightarrow> int list \<Rightarrow> int list option" where
  "copy_loop i n tempstart rds temp_word =
     (if i < int n
      then do {
        v \<leftarrow> rd temp_word (tempstart + i);
        rds' \<leftarrow> wr rds i v;
        copy_loop (i + 1) n tempstart rds' temp_word }
      else Some rds)"
  by pat_completeness auto
termination
  by (relation "measure (\<lambda>(i, n, r). nat (int n - i))") auto

definition bignum_mult :: "bool \<Rightarrow> bignum \<Rightarrow> bignum \<Rightarrow> bignum \<Rightarrow> (int \<times> bignum) option" where
  "bignum_mult ok resultnum leftnum rightnum =
     do {
       r \<leftarrow> bignum_reset resultnum;
       if sig_digs leftnum = 0 \<or> sig_digs rightnum = 0 then Some (1, r)
       else if \<not> ok then Some (0, r)
       else do {
         let bigger = leftnum;
         let smaller = rightnum;
         let twolen = 2 * int (precision r);
         (temp_word, carry) \<leftarrow>
            mult_loop 0 (sig_digs smaller) (sig_digs bigger) twolen
              (digits smaller) (digits bigger) (replicate (2 * precision r) 0) 0;
         let sd = (if carry < 1 then sig_digs bigger + sig_digs smaller - 1
                   else sig_digs bigger + sig_digs smaller);
         let pw = (if carry < 1 then power10 bigger + power10 smaller - 1
                   else power10 bigger + power10 smaller) + 1;
         zerocount \<leftarrow> zero_loop (twolen - 1) temp_word 0;
         let sd2 = (if sd - nat zerocount > precision r then precision r
                    else sd - nat zerocount);
         let tempstart = twolen - (int (sig_digs bigger) + int (sig_digs smaller))
                           + (if carry < 1 then 1 else 0);
         ds \<leftarrow> copy_loop 0 sd2 tempstart (digits r) temp_word;
         Some (1, r\<lparr>power10 := pw, sig_digs := sd2, digits := ds\<rparr>) } }"

definition bignum_mult_int :: "bool \<Rightarrow> bignum \<Rightarrow> bignum \<Rightarrow> int \<Rightarrow> (int \<times> bignum) option" where
  "bignum_mult_int ok resultnum leftnum rightint =
     do {
       r \<leftarrow> bignum_reset resultnum;
       if sig_digs leftnum = 0 \<or> rightint = 0 then Some (1, r)
       else do {
         (st, tempnum) \<leftarrow> bignum_set_int ok (bignum_init (precision r)) rightint;
         if st = 0 then Some (0, r) else bignum_mult ok r leftnum tempnum } }"

subsection \<open>\<open>bignum_divide\<close>\<close>

text \<open>
  \<open>cmp_loop\<close> is the comparison of the denominator with the window of the scratch
  word that starts after \<open>numeratorindex\<close>; it returns \<open>denom_bigger\<close>.  The
  comparison before the main loop is the same loop at \<open>numeratorindex = 0\<close>.
  \<open>sub_loop\<close> subtracts the denominator from the window in place.  \<open>digit_loop\<close> is
  the loop \<open>while (numer_bigger == 1)\<close>, which has no bound of its own.
  \<open>zdet_loop\<close> is the zero detection and returns \<open>zerocounter\<close>.
\<close>

function cmp_loop :: "int \<Rightarrow> int \<Rightarrow> int list \<Rightarrow> nat \<Rightarrow> int list \<Rightarrow> int \<Rightarrow> int option" where
  "cmp_loop i denom_bigger dds dsig temp_word numeratorindex =
     (if i \<ge> 0 \<and> denom_bigger = 1
      then do {
        d \<leftarrow> rd dds (int dsig - i - 1);
        t \<leftarrow> rd temp_word (int dsig + numeratorindex - i);
        if d > t then cmp_loop (0 - 1) denom_bigger dds dsig temp_word numeratorindex
        else if d < t then cmp_loop (i - 1) 0 dds dsig temp_word numeratorindex
        else if d = t \<and> i = 0 then cmp_loop (i - 1) 0 dds dsig temp_word numeratorindex
        else cmp_loop (i - 1) denom_bigger dds dsig temp_word numeratorindex }
      else Some denom_bigger)"
  by pat_completeness auto
termination
  by (relation "measure (\<lambda>(i, r). nat (i + 1))") auto

function sub_loop :: "int \<Rightarrow> int list \<Rightarrow> nat \<Rightarrow> int list \<Rightarrow> int \<Rightarrow> int list option" where
  "sub_loop i dds dsig temp_word numeratorindex =
     (if i < int dsig
      then do {
        t \<leftarrow> rd temp_word (int dsig + numeratorindex - i);
        d \<leftarrow> rd dds (int dsig - i - 1);
        tw \<leftarrow> wr temp_word (int dsig + numeratorindex - i) (t - d);
        tw' \<leftarrow> (if t - d < 0
                then do {
                  tw1 \<leftarrow> wr tw (int dsig + numeratorindex - i) (t - d + 10);
                  u \<leftarrow> rd tw1 (int dsig + numeratorindex - i - 1);
                  wr tw1 (int dsig + numeratorindex - i - 1) (u - 1) }
                else Some tw);
        sub_loop (i + 1) dds dsig tw' numeratorindex }
      else Some temp_word)"
  by pat_completeness auto
termination
  by (relation "measure (\<lambda>(i, dds, dsig, r). nat (int dsig - i))") auto

partial_function (option) digit_loop ::
  "int list \<Rightarrow> nat \<Rightarrow> int list \<Rightarrow> int \<Rightarrow> int \<Rightarrow> (int \<times> int list) option" where
  "digit_loop dds dsig temp_word numeratorindex current_digit =
     do {
       t0 \<leftarrow> rd temp_word numeratorindex;
       denom_bigger \<leftarrow> cmp_loop (int dsig - 1) (if t0 > 0 then 0 else 1)
                         dds dsig temp_word numeratorindex;
       if denom_bigger = 1 then Some (current_digit, temp_word)
       else do {
         tw \<leftarrow> sub_loop 0 dds dsig temp_word numeratorindex;
         digit_loop dds dsig tw numeratorindex (current_digit + 1) } }"

declare digit_loop.simps [code]

function zdet_loop :: "int \<Rightarrow> int \<Rightarrow> nat \<Rightarrow> int list \<Rightarrow> int \<Rightarrow> int option" where
  "zdet_loop i zerocounter dsig temp_word numeratorindex =
     (if i = zerocounter \<and> i \<le> int dsig
      then do {
        t \<leftarrow> rd temp_word (numeratorindex + i);
        zdet_loop (i + 1) (if t < 1 then zerocounter + 1 else zerocounter)
          dsig temp_word numeratorindex }
      else Some zerocounter)"
  by pat_completeness auto
termination
  by (relation "measure (\<lambda>(i, z, dsig, r). nat (int dsig + 1 - i))") auto

function div_loop ::
  "int \<Rightarrow> int \<Rightarrow> int \<Rightarrow> nat \<Rightarrow> nat \<Rightarrow> int list \<Rightarrow> nat \<Rightarrow> int list \<Rightarrow> int list
     \<Rightarrow> (int \<times> int list) option" where
  "div_loop sigdigctr numeratorindex nonzero prec nsig dds dsig temp_word rds =
     (if sigdigctr < int prec \<and> nonzero = 1
      then do {
        (current_digit, tw) \<leftarrow> digit_loop dds dsig temp_word numeratorindex 0;
        nonzero' \<leftarrow> (if sigdigctr > int nsig
                     then do {
                       zerocounter \<leftarrow> zdet_loop 0 0 dsig tw numeratorindex;
                       Some (if zerocounter = int dsig + 1 then 0 else nonzero) }
                     else Some nonzero);
        rds' \<leftarrow> (if sigdigctr < int prec then wr rds sigdigctr current_digit else Some rds);
        div_loop (sigdigctr + 1) (numeratorindex + 1) nonzero' prec nsig dds dsig tw rds' }
      else Some (sigdigctr, rds))"
  by pat_completeness auto
termination
  by (relation "measure (\<lambda>(s, ni, nz, prec, r). nat (int prec - s))") auto

function load_loop :: "int \<Rightarrow> nat \<Rightarrow> int list \<Rightarrow> int list \<Rightarrow> int list option" where
  "load_loop i n temp_word nds =
     (if i < int n
      then do {
        v \<leftarrow> rd nds i;
        tw \<leftarrow> wr temp_word (i + 1) v;
        load_loop (i + 1) n tw nds }
      else Some temp_word)"
  by pat_completeness auto
termination
  by (relation "measure (\<lambda>(i, n, r). nat (int n - i))") auto

definition bignum_divide :: "bool \<Rightarrow> bignum \<Rightarrow> bignum \<Rightarrow> bignum \<Rightarrow> (int \<times> bignum) option" where
  "bignum_divide ok resultnum numerator denominator =
     do {
       r \<leftarrow> bignum_reset resultnum;
       if sig_digs denominator = 0 then Some (0, r)
       else if sig_digs numerator = 0 then Some (1, r)
       else if \<not> ok then Some (0, r)
       else do {
         temp_word \<leftarrow> load_loop 0 (sig_digs numerator)
                        (replicate (2 * precision r + 2) 0) (digits numerator);
         denom_bigger \<leftarrow> cmp_loop (int (sig_digs denominator) - 1) 1
                           (digits denominator) (sig_digs denominator) temp_word 0;
         let numeratorindex = (if denom_bigger = 1 then 1 else 0);
         let pw = power10 numerator - power10 denominator
                    - (if denom_bigger = 1 then 1 else 0);
         (sigdigctr, ds) \<leftarrow>
            div_loop 0 numeratorindex 1 (precision r) (sig_digs numerator)
              (digits denominator) (sig_digs denominator) temp_word (digits r);
         zerocount \<leftarrow> zero_loop (sigdigctr - 1) ds 0;
         Some (1, r\<lparr>power10 := pw, digits := ds,
                      sig_digs := nat sigdigctr - nat zerocount\<rparr>) } }"

definition bignum_int_divide :: "bool \<Rightarrow> bignum \<Rightarrow> int \<Rightarrow> bignum \<Rightarrow> (int \<times> bignum) option" where
  "bignum_int_divide ok resultnum leftint rightnum =
     do {
       r \<leftarrow> bignum_reset resultnum;
       if sig_digs rightnum = 0 then Some (0, r)
       else if leftint = 0 then Some (1, r)
       else do {
         (st, tempnum) \<leftarrow> bignum_set_int ok (bignum_init (precision r)) leftint;
         if st = 0 then Some (0, r) else bignum_divide ok r tempnum rightnum } }"

definition bignum_divide_int :: "bool \<Rightarrow> bignum \<Rightarrow> bignum \<Rightarrow> int \<Rightarrow> (int \<times> bignum) option" where
  "bignum_divide_int ok resultnum leftnum rightint =
     do {
       r \<leftarrow> bignum_reset resultnum;
       if rightint = 0 then Some (0, r)
       else if sig_digs leftnum = 0 then Some (1, r)
       else do {
         (st, tempnum) \<leftarrow> bignum_set_int ok (bignum_init (precision r)) rightint;
         if st = 0 then Some (0, r) else bignum_divide ok r leftnum tempnum } }"

subsection \<open>The driver: work partition and reference line\<close>

text \<open>
  \<open>worker_limits\<close> is the descriptor that the loop of \<open>main\<close> fills for thread \<open>i\<close>;
  \<open>split_work\<close> is that loop, collecting the descriptors in thread order.  The number
  of iterations and of threads are at least 1 there, so the C division is \<open>div\<close>.
\<close>

definition worker_limits :: "int \<Rightarrow> int \<Rightarrow> int \<Rightarrow> int \<Rightarrow> limits" where
  "worker_limits iterations num_threads md i =
     \<lparr>threadid = i,
      lowlimit = i * (iterations div num_threads),
      highlimit = (if i + 1 = num_threads then iterations
                   else (i + 1) * (iterations div num_threads)),
      totaliterations = iterations,
      max_digits = md\<rparr>"

function split_work :: "int \<Rightarrow> int \<Rightarrow> int \<Rightarrow> int \<Rightarrow> limits list" where
  "split_work i iterations num_threads md =
     (if i < num_threads
      then worker_limits iterations num_threads md i
             # split_work (i + 1) iterations num_threads md
      else [])"
  by pat_completeness auto
termination
  by (relation "measure (\<lambda>(i, n, w, md). nat (w - i))") auto

text \<open>
  \<open>span\<close> is the set of subinterval indices that the loop
  \<open>for (i = lowlimit; i < highlimit; i++)\<close> of a worker runs through.
\<close>

definition span :: "limits \<Rightarrow> int set" where
  "span l = {lowlimit l ..< highlimit l}"

text \<open>
  The array behind \<open>accepted_pi\<close>: the two parts of the literal, the \<open>\0\<close> written
  in it and the terminator that the compiler appends.
\<close>

definition accepted_pi :: string where
  "accepted_pi =
     ''3.14159265358979323846264338327950288419716939937510''
     @ ''58209749445923078164062862089986280348253421170679''
     @ [CHR 0x00, CHR 0x00]"

text \<open>
  \<open>ref_loop\<close> is the loop of \<open>main\<close> that prints the digits of the reference constant
  one character at a time, as a string of one character (nothing is printed when the
  character is the terminator); \<open>actual_line\<close> is the second line of the output,
  between the two newline characters.
\<close>

function ref_loop :: "int \<Rightarrow> int \<Rightarrow> string \<Rightarrow> string option" where
  "ref_loop i md out =
     (if i < md - 1
      then (if 0 \<le> i + 2 \<and> i + 2 < int (length accepted_pi)
            then ref_loop (i + 1) md
                   (out @ (if accepted_pi ! nat (i + 2) = CHR 0x00 then []
                           else [accepted_pi ! nat (i + 2)]))
            else None)
      else Some out)"
  by pat_completeness auto
termination
  by (relation "measure (\<lambda>(i, md, out). nat (md - i))") auto

definition actual_line :: "int \<Rightarrow> string option" where
  "actual_line md = ref_loop 0 md ''The actual value of pi is     3.''"

subsection \<open>Decimal representation of an integer\<close>

text \<open>
  These follow the words of the specification, not the code.  \<open>dec_rev\<close> lists the
  decimal digits of a positive integer from the units upwards; \<open>decimal_digits\<close>
  is the decimal representation, most significant digit first; \<open>significant_digits\<close>
  is the representation from its most significant digit through its last non-zero
  digit.
\<close>

function dec_rev :: "int \<Rightarrow> int list" where
  "dec_rev n = (if n > 0 then n mod 10 # dec_rev (n div 10) else [])"
  by pat_completeness auto
termination
  by (relation "measure nat") auto

definition decimal_digits :: "int \<Rightarrow> int list" where
  "decimal_digits n = rev (dec_rev n)"

definition significant_digits :: "int \<Rightarrow> int list" where
  "significant_digits n = rev (dropWhile (\<lambda>d. d = 0) (dec_rev n))"

text \<open>
  \<open>dval\<close> is the number that a sequence of digits, most significant first, denotes;
  the long division is measured with it.
\<close>

definition dval :: "int list \<Rightarrow> int" where
  "dval ds = foldl (\<lambda>a d. 10 * a + d) 0 ds"

text \<open>
  \<open>window\<close> is the part of the scratch word that one round of the division works
  on: the entry at \<open>numeratorindex\<close> and the \<open>sig_digs\<close> of the denominator many
  entries after it.
\<close>

definition window :: "nat \<Rightarrow> nat \<Rightarrow> int list \<Rightarrow> int list" where
  "window n dsig temp_word = take (Suc dsig) (drop n temp_word)"

subsection \<open>Representation predicates\<close>

text \<open>
  \<open>zero_tail\<close>: every position of the digit array from \<open>sig_digs\<close> on holds zero.
  \<open>well_formed\<close>: the representation that \<open>bignum_init\<close> sets up and the arithmetic
  works on, an array of \<open>precision\<close> decimal digits of which at most \<open>precision\<close> are
  used and the others are zero.  \<open>spec_invariant\<close> is the invariant of the
  specification: no more digits than the precision, and neither the first nor the
  last stored digit is zero.
\<close>

definition zero_tail :: "bignum \<Rightarrow> bool" where
  "zero_tail b = (\<forall>d \<in> set (drop (sig_digs b) (digits b)). d = 0)"

definition well_formed :: "bignum \<Rightarrow> bool" where
  "well_formed b =
     (length (digits b) = precision b \<and> sig_digs b \<le> precision b
      \<and> (\<forall>d \<in> set (digits b). 0 \<le> d \<and> d \<le> 9) \<and> zero_tail b)"

definition spec_invariant :: "bignum \<Rightarrow> bool" where
  "spec_invariant b =
     (sig_digs b \<le> precision b
      \<and> (sig_digs b > 0 \<longrightarrow> digits b ! 0 \<noteq> 0 \<and> digits b ! (sig_digs b - 1) \<noteq> 0))"

declare reset_loop.simps [simp del] set_loop.simps [simp del] split_loop.simps [simp del]
  lead_loop.simps [simp del] store_loop.simps [simp del] print_loop.simps [simp del]
  shift_loop.simps [simp del] add_loop.simps [simp del] carry_loop.simps [simp del]
  mult_row.simps [simp del] mult_loop.simps [simp del] zero_loop.simps [simp del]
  copy_loop.simps [simp del] cmp_loop.simps [simp del] sub_loop.simps [simp del]
  zdet_loop.simps [simp del] div_loop.simps [simp del] load_loop.simps [simp del]
  split_work.simps [simp del] ref_loop.simps [simp del] dec_rev.simps [simp del]

section \<open>Array accesses and the copying loops\<close>

lemma rd_Some: "0 \<le> i \<Longrightarrow> i < int (length xs) \<Longrightarrow> rd xs i = Some (xs ! nat i)"
  by (simp add: rd_def)

lemma wr_Some: "0 \<le> i \<Longrightarrow> i < int (length xs) \<Longrightarrow> wr xs i v = Some (xs[nat i := v])"
  by (simp add: wr_def)

lemma reset_loop_eq:
  "0 \<le> i \<Longrightarrow> i \<le> int n \<Longrightarrow> n \<le> length ds \<Longrightarrow>
   reset_loop i n ds = Some (take (nat i) ds @ replicate (n - nat i) 0 @ drop n ds)"
proof (induction i n ds rule: reset_loop.induct)
  case (1 i n ds)
  show ?case
  proof (cases "i < int n")
    case True
    with 1 have k: "nat i < n" "nat i < length ds" by auto
    have w: "wr ds i 0 = Some (ds[nat i := 0])" using 1 True by (simp add: wr_Some)
    have ih: "reset_loop (i + 1) n (ds[nat i := 0])
              = Some (take (nat (i + 1)) (ds[nat i := 0]) @ replicate (n - nat (i + 1)) 0
                      @ drop n (ds[nat i := 0]))"
      using 1 True w by simp
    have s: "nat (i + 1) = Suc (nat i)" using 1 by simp
    have "take (Suc (nat i)) (ds[nat i := 0]) = take (nat i) ds @ [0]"
      using k by (simp add: take_Suc_conv_app_nth)
    moreover have "replicate (n - nat i) (0::int) = 0 # replicate (n - Suc (nat i)) 0"
      using k by (metis Suc_diff_Suc replicate_Suc)
    moreover have "drop n (ds[nat i := 0]) = drop n ds" using k by simp
    ultimately show ?thesis
      by (subst reset_loop.simps) (simp add: True w ih s)
  next
    case False
    with 1 have "nat i = n" by simp
    then show ?thesis using False by (subst reset_loop.simps) simp
  qed
qed

lemma set_loop_eq:
  "0 \<le> i \<Longrightarrow> i \<le> int n \<Longrightarrow> n \<le> length newd \<Longrightarrow> n \<le> length oldd \<Longrightarrow>
   set_loop i n newd oldd
     = Some (take (nat i) newd @ take (n - nat i) (drop (nat i) oldd) @ drop n newd)"
proof (induction i n newd oldd rule: set_loop.induct)
  case (1 i n newd oldd)
  show ?case
  proof (cases "i < int n")
    case True
    with 1 have k: "nat i < n" "nat i < length newd" "nat i < length oldd" by auto
    have r: "rd oldd i = Some (oldd ! nat i)" using 1 True by (simp add: rd_Some)
    have w: "wr newd i (oldd ! nat i) = Some (newd[nat i := oldd ! nat i])"
      using 1 True by (simp add: wr_Some)
    have s: "nat (i + 1) = Suc (nat i)" using 1 by simp
    have ih: "set_loop (i + 1) n (newd[nat i := oldd ! nat i]) oldd
              = Some (take (Suc (nat i)) (newd[nat i := oldd ! nat i])
                      @ take (n - Suc (nat i)) (drop (Suc (nat i)) oldd)
                      @ drop n (newd[nat i := oldd ! nat i]))"
      using 1 True r w s by simp
    have "take (Suc (nat i)) (newd[nat i := oldd ! nat i]) = take (nat i) newd @ [oldd ! nat i]"
      using k by (simp add: take_Suc_conv_app_nth)
    moreover have "take (n - nat i) (drop (nat i) oldd)
                   = oldd ! nat i # take (n - Suc (nat i)) (drop (Suc (nat i)) oldd)"
      using k by (metis Cons_nth_drop_Suc Suc_diff_Suc take_Suc_Cons)
    moreover have "drop n (newd[nat i := oldd ! nat i]) = drop n newd" using k by simp
    ultimately show ?thesis
      by (subst set_loop.simps) (simp add: True r w ih s)
  next
    case False
    with 1 have "nat i = n" by simp
    then show ?thesis using False by (subst set_loop.simps) simp
  qed
qed

lemma bignum_reset_Some:
  assumes "sig_digs r \<le> length (digits r)"
  shows "bignum_reset r = Some (if sig_digs r > 0
           then r\<lparr>digits := replicate (sig_digs r) 0 @ drop (sig_digs r) (digits r),
                  power10 := 0, sig_digs := 0\<rparr>
           else r)"
  using assms by (simp add: bignum_reset_def reset_loop_eq)

lemma bignum_reset_fields:
  assumes "bignum_reset r = Some r0"
  shows "sig_digs r0 = 0" and "precision r0 = precision r"
  using assms by (auto simp: bignum_reset_def split: if_splits bind_splits)

lemma zero_tail_drop:
  "zero_tail b \<Longrightarrow> drop (sig_digs b) (digits b) = replicate (length (digits b) - sig_digs b) 0"
  unfolding zero_tail_def
  by (metis length_drop replicate_length_same)

lemma well_formed_digits:
  "well_formed b \<Longrightarrow>
   take (sig_digs b) (digits b) @ replicate (precision b - sig_digs b) 0 = digits b"
  using zero_tail_drop [of b] by (metis append_take_drop_id well_formed_def)

lemma bignum_reset_wf:
  assumes "well_formed r"
  shows "\<exists>r0. bignum_reset r = Some r0 \<and> digits r0 = replicate (precision r) 0
            \<and> sig_digs r0 = 0 \<and> precision r0 = precision r"
proof (cases "sig_digs r > 0")
  case True
  have "reset_loop 0 (sig_digs r) (digits r)
        = Some (replicate (sig_digs r) 0 @ drop (sig_digs r) (digits r))"
    using assms by (simp add: reset_loop_eq well_formed_def)
  moreover have "replicate (sig_digs r) 0 @ drop (sig_digs r) (digits r)
                 = replicate (precision r) 0"
    using assms zero_tail_drop [of r] by (simp add: well_formed_def flip: replicate_add)
  ultimately show ?thesis using True by (simp add: bignum_reset_def)
next
  case False
  then have "digits r = replicate (precision r) 0"
    using assms zero_tail_drop [of r] by (simp add: well_formed_def)
  then show ?thesis using False by (simp add: bignum_reset_def)
qed

lemma bignum_set_copy:
  assumes "digits r0 = replicate (precision r0) 0" and "well_formed a"
    and "precision a = precision r0" and "sig_digs a > 0"
  shows "bignum_set r0 a
         = Some (r0\<lparr>power10 := power10 a, sig_digs := sig_digs a, digits := digits a\<rparr>)"
proof -
  have le: "sig_digs a \<le> precision r0" "length (digits a) = precision r0"
    using assms by (simp_all add: well_formed_def)
  have "set_loop 0 (sig_digs a) (digits r0) (digits a)
        = Some (take (sig_digs a) (digits a) @ drop (sig_digs a) (digits r0))"
    using le assms(1) by (simp add: set_loop_eq)
  moreover have "take (sig_digs a) (digits a) @ drop (sig_digs a) (digits r0) = digits a"
    using well_formed_digits [OF assms(2)] assms(1,3) by simp
  ultimately show ?thesis using assms(4) le by (simp add: bignum_set_def)
qed

section \<open>The over-shift case of \<open>bignum_add\<close>\<close>

text \<open>
  C5.  When both operands are non-zero and the power of one exceeds the power of the
  other by more than the precision of the result, \<open>bignum_add\<close> returns success and
  the result is a copy of the operand of larger power, whichever side it is on.  The
  operands and the result have the representation and the common precision that
  \<open>bignum_add\<close> assumes.
\<close>

theorem add_overshift:
  assumes "well_formed r" and "well_formed a" and "precision a = precision r"
    and "sig_digs a > 0" and "sig_digs b > 0"
    and "power10 a - power10 b > int (precision r)"
  shows "bignum_add r a b = Some (1, a) \<and> bignum_add r b a = Some (1, a)"
proof -
  obtain r0 where r0: "bignum_reset r = Some r0" "digits r0 = replicate (precision r) 0"
      "sig_digs r0 = 0" "precision r0 = precision r"
    using bignum_reset_wf [OF assms(1)] by blast
  have "bignum_set r0 a
        = Some (r0\<lparr>power10 := power10 a, sig_digs := sig_digs a, digits := digits a\<rparr>)"
    using bignum_set_copy [of r0 a] r0 assms by simp
  moreover have "r0\<lparr>power10 := power10 a, sig_digs := sig_digs a, digits := digits a\<rparr> = a"
    using r0 assms(3) by simp
  ultimately have s: "bignum_set r0 a = Some a" by simp
  show ?thesis using assms(4,5,6) r0 s by (simp add: bignum_add_def)
qed

theorem add_overshift_witness:
  "well_formed (bignum_init 3)
   \<and> well_formed \<lparr>power10 = 5, sig_digs = 2, digits = [1, 2, 0], precision = 3\<rparr>
   \<and> (5::int) - 1 > int 3
   \<and> bignum_add (bignum_init 3)
        \<lparr>power10 = 5, sig_digs = 2, digits = [1, 2, 0], precision = 3\<rparr>
        \<lparr>power10 = 1, sig_digs = 1, digits = [7, 0, 0], precision = 3\<rparr>
      = Some (1, \<lparr>power10 = 5, sig_digs = 2, digits = [1, 2, 0], precision = 3\<rparr>)
   \<and> bignum_add (bignum_init 3)
        \<lparr>power10 = 1, sig_digs = 1, digits = [7, 0, 0], precision = 3\<rparr>
        \<lparr>power10 = 5, sig_digs = 2, digits = [1, 2, 0], precision = 3\<rparr>
      = Some (1, \<lparr>power10 = 5, sig_digs = 2, digits = [1, 2, 0], precision = 3\<rparr>)"
  using add_overshift [of "bignum_init 3"
      "\<lparr>power10 = 5, sig_digs = 2, digits = [1, 2, 0], precision = 3\<rparr>"
      "\<lparr>power10 = 1, sig_digs = 1, digits = [7, 0, 0], precision = 3\<rparr>"]
  by (simp add: well_formed_def zero_tail_def bignum_init_def)

section \<open>The long division returns\<close>

text \<open>
  \<open>digit_loop\<close> has no bound of its own, so that \<open>bignum_divide\<close> returns is a property
  to prove.  The argument reads the \<open>dsig + 1\<close> entries of the scratch word from
  \<open>numeratorindex\<close> on as one number, \<open>dval (window \<dots>)\<close>: one pass of \<open>sub_loop\<close>
  lowers that number by the value of the denominator, and \<open>cmp_loop\<close> stops the
  passes once the number is smaller than the denominator.  With digits in \<open>0..9\<close> and
  a denominator of non-zero value every loop of \<open>bignum_divide\<close> stays inside its arrays
  and ends, and the first digit of the quotient is not zero.
\<close>

lemma dval_Nil [simp]: "dval [] = 0"
  by (simp add: dval_def)

lemma dval_snoc: "dval (xs @ [d]) = 10 * dval xs + d"
  by (simp add: dval_def)

lemma dval_Cons: "dval (x # xs) = x * 10 ^ length xs + dval xs"
proof (induction xs rule: rev_induct)
  case Nil
  then show ?case by (simp add: dval_def)
next
  case (snoc y ys)
  have "dval (x # ys @ [y]) = 10 * dval (x # ys) + y"
    using dval_snoc [of "x # ys" y] by simp
  then show ?case using snoc by (simp add: dval_snoc algebra_simps)
qed

lemma dval_append: "dval (xs @ ys) = dval xs * 10 ^ length ys + dval ys"
  by (induction xs) (simp_all add: dval_Cons algebra_simps power_add)

lemma dval_range:
  assumes "\<forall>d \<in> set xs. 0 \<le> d \<and> d \<le> 9"
  shows "0 \<le> dval xs \<and> dval xs < 10 ^ length xs"
  using assms
proof (induction xs rule: rev_induct)
  case Nil
  then show ?case by simp
next
  case (snoc y ys)
  then have "0 \<le> dval ys" "dval ys + 1 \<le> 10 ^ length ys" "0 \<le> y" "y \<le> 9" by auto
  then show ?case by (simp add: dval_snoc)
qed

lemma dval_update:
  assumes "i < length xs"
  shows "dval (xs[i := v]) = dval xs + (v - xs ! i) * 10 ^ (length xs - 1 - i)"
proof -
  have xs: "xs = take i xs @ xs ! i # drop (Suc i) xs"
    using assms by (simp add: id_take_nth_drop [symmetric])
  have up: "xs[i := v] = take i xs @ v # drop (Suc i) xs"
    using assms by (simp add: upd_conv_take_nth_drop)
  have l: "length (drop (Suc i) xs) = length xs - 1 - i" by simp
  have "dval (take i xs @ v # drop (Suc i) xs)
        = dval (take i xs @ xs ! i # drop (Suc i) xs) + (v - xs ! i) * 10 ^ (length xs - 1 - i)"
    by (simp add: dval_append dval_Cons l algebra_simps)
  then show ?thesis using xs up by simp
qed

lemma window_length: "n + dsig < length tw \<Longrightarrow> length (window n dsig tw) = Suc dsig"
  by (simp add: window_def)

lemma window_nth: "n + dsig < length tw \<Longrightarrow> k \<le> dsig \<Longrightarrow> window n dsig tw ! k = tw ! (n + k)"
  by (simp add: window_def)

lemma window_update:
  "k \<le> dsig \<Longrightarrow> window n dsig (tw[n + k := v]) = (window n dsig tw)[k := v]"
  by (simp add: window_def drop_update_swap take_update_swap)

lemma sub_loop_inv:
  assumes "0 \<le> ni" and "nat ni + dsig < length tw" and "dsig \<le> length dds" and "i \<le> dsig"
    and "\<forall>d \<in> set (take dsig dds). 0 \<le> d \<and> d \<le> 9"
    and "\<forall>k \<le> dsig. (if k = dsig - i then - 1 else 0) \<le> window (nat ni) dsig tw ! k
                      \<and> window (nat ni) dsig tw ! k \<le> 9"
  shows "\<exists>tw'. sub_loop (int i) dds dsig tw ni = Some tw' \<and> length tw' = length tw
      \<and> (\<forall>k < length tw. k < nat ni \<or> nat ni + dsig < k \<longrightarrow> tw' ! k = tw ! k)
      \<and> dval (window (nat ni) dsig tw')
          = dval (window (nat ni) dsig tw) - dval (take (dsig - i) dds) * 10 ^ i
      \<and> (\<forall>k \<le> dsig. (if k = 0 then - 1 else 0) \<le> window (nat ni) dsig tw' ! k
                      \<and> window (nat ni) dsig tw' ! k \<le> 9)"
  using assms(2,4,6)
proof (induction "dsig - i" arbitrary: i tw)
  case 0
  then have "i = dsig" by simp
  then show ?case using 0 by (subst sub_loop.simps) simp
next
  case (Suc m)
  let ?N = "nat ni"
  let ?W = "window ?N dsig tw"
  have i: "i < dsig" using Suc(2) by simp
  define k0 where "k0 = dsig - i"
  have k0: "0 < k0" "k0 \<le> dsig" "dsig - k0 = i" "k0 - 1 = dsig - Suc i"
    using i by (auto simp: k0_def)
  define t where "t = tw ! (?N + k0)"
  define d where "d = dds ! (dsig - i - 1)"
  define u where "u = tw ! (?N + k0 - 1)"
  have ix: "nat (int dsig + ni - int i) = ?N + k0" "nat (int dsig - int i - 1) = dsig - i - 1"
    "nat (int dsig + ni - int i - 1) = ?N + k0 - 1"
    using assms(1) i by (auto simp: k0_def)
  have bd: "?N + k0 < length tw" "dsig - i - 1 < length dds" "?N + k0 - 1 < length tw"
    using Suc(3) k0 assms(3) i by auto
  have rt: "rd tw (int dsig + ni - int i) = Some t"
    using bd(1) assms(1) i ix(1) by (simp add: rd_def t_def)
  have rdd: "rd dds (int dsig - int i - 1) = Some d"
    using bd(2) i ix(2) by (simp add: rd_def d_def)
  have dr: "0 \<le> d" "d \<le> 9"
  proof -
    have "d \<in> set (take dsig dds)"
      using i assms(3) by (auto simp: d_def in_set_conv_nth intro!: exI [of _ "dsig - i - 1"])
    then show "0 \<le> d" "d \<le> 9" using assms(5) by auto
  qed
  have tr: "- 1 \<le> t" "t \<le> 9"
    using Suc(5) [rule_format, of k0] k0(2) window_nth [OF Suc(3) k0(2)] by (auto simp: t_def k0_def)
  have ur: "0 \<le> u" "u \<le> 9"
  proof -
    have "k0 - 1 \<le> dsig" "k0 - 1 \<noteq> dsig - i" using k0 i by (auto simp: k0_def)
    then have "0 \<le> ?W ! (k0 - 1) \<and> ?W ! (k0 - 1) \<le> 9" using Suc(5) by auto
    moreover have "?W ! (k0 - 1) = u"
      using window_nth [OF Suc(3), of "k0 - 1"] k0 by (simp add: u_def)
    ultimately show "0 \<le> u" "u \<le> 9" by auto
  qed
  define tw1 where "tw1 = (if t - d < 0 then tw[?N + k0 := t - d + 10, ?N + k0 - 1 := u - 1]
                           else tw[?N + k0 := t - d])"
  have ge: "0 \<le> int dsig + ni - int i" "0 \<le> int dsig + ni - int i - 1"
    "int dsig + ni - int i < int (length tw)" "int dsig + ni - int i - 1 < int (length tw)"
    using assms(1) i bd(1) by (auto simp: k0_def)
  have wa: "wr tw (int dsig + ni - int i) (t - d) = Some (tw[?N + k0 := t - d])"
    using bd(1) ge by (simp add: wr_def ix)
  have wb: "wr (tw[?N + k0 := t - d]) (int dsig + ni - int i) (t - d + 10)
            = Some (tw[?N + k0 := t - d + 10])"
    using bd(1) ge by (simp add: wr_def ix)
  have rc: "rd (tw[?N + k0 := t - d + 10]) (int dsig + ni - int i - 1) = Some u"
    using bd(3) ge k0(1) by (simp add: rd_def ix u_def)
  have wc: "wr (tw[?N + k0 := t - d + 10]) (int dsig + ni - int i - 1) (u - 1)
            = Some (tw[?N + k0 := t - d + 10, ?N + k0 - 1 := u - 1])"
    using bd(3) ge by (simp add: wr_def ix)
  have ii: "int i < int dsig" using i by simp
  have step: "sub_loop (int i) dds dsig tw ni = sub_loop (int (Suc i)) dds dsig tw1 ni"
  proof -
    have "sub_loop (int i) dds dsig tw ni = sub_loop (int i + 1) dds dsig tw1 ni"
      by (subst sub_loop.simps, cases "t - d < 0")
         (simp_all only: ii if_True if_False rt rdd wa wb rc wc Option.bind.bind_lunit tw1_def)
    moreover have "int i + 1 = int (Suc i)" by simp
    ultimately show ?thesis by (simp only:)
  qed
  have l1: "length tw1 = length tw" by (simp add: tw1_def)
  have w1: "window ?N dsig tw1
            = (if t - d < 0 then ?W[k0 := t - d + 10, k0 - 1 := u - 1] else ?W[k0 := t - d])"
  proof -
    have e: "?N + k0 - 1 = ?N + (k0 - 1)" using k0(1) by simp
    have a: "window ?N dsig (xs[?N + k0 := v]) = (window ?N dsig xs)[k0 := v]" for xs v
      using window_update [of k0 dsig ?N] k0(2) by simp
    have b: "window ?N dsig (xs[?N + (k0 - 1) := v]) = (window ?N dsig xs)[k0 - 1 := v]" for xs v
      using window_update [of "k0 - 1" dsig ?N] k0(2) by simp
    show ?thesis unfolding tw1_def e by (simp only: a b if_distrib [of "window ?N dsig"])
  qed
  have lw: "length ?W = Suc dsig" using window_length [OF Suc(3)] .
  have wt: "?W ! k0 = t" "?W ! (k0 - 1) = u"
    using window_nth [OF Suc(3), of k0] window_nth [OF Suc(3), of "k0 - 1"] k0
    by (simp_all add: t_def u_def)
  have ex: "Suc dsig - 1 - (k0 - 1) = Suc i" "Suc dsig - 1 - k0 = i"
    using k0 i by (auto simp: k0_def)
  have up: "dval (?W[k0 := v]) = dval ?W + (v - t) * 10 ^ i" for v
  proof -
    have "k0 < length ?W" using lw k0 by simp
    from dval_update [OF this, of v] show ?thesis by (simp only: lw ex wt)
  qed
  have up2: "dval (?W[k0 := v, k0 - 1 := w]) = dval (?W[k0 := v]) + (w - u) * 10 ^ Suc i" for v w
  proof -
    have l: "k0 - 1 < length (?W[k0 := v])" using lw k0 by simp
    have "(?W[k0 := v]) ! (k0 - 1) = u" using wt(2) k0(1) by simp
    with dval_update [OF l, of w] show ?thesis by (simp only: lw ex length_list_update)
  qed
  have v1: "dval (window ?N dsig tw1) = dval ?W - d * 10 ^ i"
  proof (cases "t - d < 0")
    case True
    then have "dval (window ?N dsig tw1) = dval (?W[k0 := t - d + 10, k0 - 1 := u - 1])"
      by (simp only: w1 if_True)
    also have "\<dots> = dval ?W + (t - d + 10 - t) * 10 ^ i + (u - 1 - u) * 10 ^ Suc i"
      by (simp only: up up2)
    also have "\<dots> = dval ?W - d * 10 ^ i" by (simp add: algebra_simps)
    finally show ?thesis .
  next
    case False
    then have "dval (window ?N dsig tw1) = dval (?W[k0 := t - d])"
      by (simp only: w1 if_False)
    also have "\<dots> = dval ?W + (t - d - t) * 10 ^ i" by (simp only: up)
    also have "\<dots> = dval ?W - d * 10 ^ i" by (simp add: algebra_simps)
    finally show ?thesis .
  qed
  have r1: "\<forall>k \<le> dsig. (if k = dsig - Suc i then - 1 else 0) \<le> window ?N dsig tw1 ! k
                      \<and> window ?N dsig tw1 ! k \<le> 9"
  proof (intro allI impI)
    fix k assume k: "k \<le> dsig"
    have old: "(if k = dsig - i then - 1 else 0) \<le> ?W ! k \<and> ?W ! k \<le> 9"
      using Suc(5) k by blast
    consider "k = k0" | "k = k0 - 1" | "k \<noteq> k0" "k \<noteq> k0 - 1" by blast
    then show "(if k = dsig - Suc i then - 1 else 0) \<le> window ?N dsig tw1 ! k
               \<and> window ?N dsig tw1 ! k \<le> 9"
    proof cases
      case 1
      then show ?thesis using tr dr k0 lw by (auto simp: w1)
    next
      case 2
      then show ?thesis using ur k0 lw wt by (auto simp: w1)
    next
      case 3
      then have "window ?N dsig tw1 ! k = ?W ! k" by (auto simp: w1)
      then show ?thesis using old 3 k0 by (auto simp: k0_def)
    qed
  qed
  have "\<exists>tw'. sub_loop (int (Suc i)) dds dsig tw1 ni = Some tw' \<and> length tw' = length tw1
      \<and> (\<forall>k < length tw1. k < ?N \<or> ?N + dsig < k \<longrightarrow> tw' ! k = tw1 ! k)
      \<and> dval (window ?N dsig tw')
          = dval (window ?N dsig tw1) - dval (take (dsig - Suc i) dds) * 10 ^ Suc i
      \<and> (\<forall>k \<le> dsig. (if k = 0 then - 1 else 0) \<le> window ?N dsig tw' ! k
                      \<and> window ?N dsig tw' ! k \<le> 9)"
  proof (rule Suc(1))
    show "m = dsig - Suc i" using Suc(2) by simp
    show "?N + dsig < length tw1" using Suc(3) l1 by simp
    show "Suc i \<le> dsig" using i by simp
    show "\<forall>k \<le> dsig. (if k = dsig - Suc i then - 1 else 0) \<le> window ?N dsig tw1 ! k
                      \<and> window ?N dsig tw1 ! k \<le> 9" using r1 .
  qed
  then obtain tw' where tw': "sub_loop (int (Suc i)) dds dsig tw1 ni = Some tw'"
      "length tw' = length tw1"
      "\<forall>k < length tw1. k < ?N \<or> ?N + dsig < k \<longrightarrow> tw' ! k = tw1 ! k"
      "dval (window ?N dsig tw')
          = dval (window ?N dsig tw1) - dval (take (dsig - Suc i) dds) * 10 ^ Suc i"
      "\<forall>k \<le> dsig. (if k = 0 then - 1 else 0) \<le> window ?N dsig tw' ! k
                      \<and> window ?N dsig tw' ! k \<le> 9"
    by blast
  have fr: "\<forall>k < length tw. k < ?N \<or> ?N + dsig < k \<longrightarrow> tw' ! k = tw ! k"
  proof (intro allI impI)
    fix k assume k: "k < length tw" "k < ?N \<or> ?N + dsig < k"
    then have "k \<noteq> ?N + k0" "k \<noteq> ?N + k0 - 1" using k0 by auto
    then have "tw1 ! k = tw ! k" by (simp add: tw1_def)
    moreover have "tw' ! k = tw1 ! k" using tw'(3) [rule_format, of k] k l1 by simp
    ultimately show "tw' ! k = tw ! k" by simp
  qed
  have tk: "take (dsig - i) dds = take (dsig - Suc i) dds @ [d]"
  proof -
    have "dsig - i = Suc (dsig - Suc i)" using i by simp
    then show ?thesis using bd(2) by (simp add: take_Suc_conv_app_nth d_def)
  qed
  have "dval (window ?N dsig tw')
        = dval ?W - dval (take (dsig - i) dds) * 10 ^ i"
    using tw'(4) v1 by (simp add: tk dval_snoc algebra_simps)
  then show ?case
    using step tw'(1,2,5) l1 fr by auto
qed

lemma cmp_loop_exit: "cmp_loop (- 1) b dds dsig tw ni = Some b"
  by (subst cmp_loop.simps) simp

lemma cmp_loop_zero: "cmp_loop i 0 dds dsig tw ni = Some 0"
  by (subst cmp_loop.simps) simp

lemma cmp_loop_val:
  assumes "0 \<le> ni" and "nat ni + dsig < length tw" and "dsig \<le> length dds"
    and "\<forall>d \<in> set (take dsig dds). 0 \<le> d \<and> d \<le> 9"
    and "\<forall>x \<in> set (window (nat ni) dsig tw). 0 \<le> x \<and> x \<le> 9"
    and "1 \<le> i" and "i \<le> dsig"
  shows "cmp_loop (int i - 1) 1 dds dsig tw ni
         = Some (if dval (drop (dsig - i) (take dsig dds))
                      > dval (drop (Suc (dsig - i)) (window (nat ni) dsig tw)) then 1 else 0)"
  using assms(6,7)
proof (induction i rule: nat_induct_at_least)
  case base
  let ?W = "window (nat ni) dsig tw"
  have lw: "length ?W = Suc dsig" using window_length [OF assms(2)] .
  have a: "drop (dsig - 1) (take dsig dds) = [dds ! (dsig - 1)]"
  proof -
    have "dsig - 1 < length (take dsig dds)" using base assms(3) by simp
    from Cons_nth_drop_Suc [OF this] show ?thesis using base assms(3) by simp
  qed
  have b: "drop (Suc (dsig - 1)) ?W = [tw ! (nat ni + dsig)]"
  proof -
    have "dsig < length ?W" using lw by simp
    from Cons_nth_drop_Suc [OF this] show ?thesis
      using base lw window_nth [OF assms(2), of dsig] by simp
  qed
  have r: "rd dds (int dsig - (int 1 - 1) - 1) = Some (dds ! (dsig - 1))"
    using base assms(3) by (simp add: rd_def nat_diff_distrib)
  have t: "rd tw (int dsig + ni - (int 1 - 1)) = Some (tw ! (nat ni + dsig))"
    using assms(1,2) by (simp add: rd_def nat_add_distrib add.commute)
  show ?case
    by (subst cmp_loop.simps)
       (simp only: a b r t Option.bind.bind_lunit, simp add: dval_def cmp_loop_exit cmp_loop_zero)
next
  case (Suc i)
  let ?W = "window (nat ni) dsig tw"
  let ?T = "take dsig dds"
  have lw: "length ?W = Suc dsig" using window_length [OF assms(2)] .
  define d where "d = dds ! (dsig - Suc i)"
  define t where "t = tw ! (nat ni + dsig - i)"
  define A where "A = dval (drop (dsig - i) ?T)"
  define B where "B = dval (drop (Suc (dsig - i)) ?W)"
  have e: "Suc (dsig - Suc i) = dsig - i" using Suc by simp
  have a: "drop (dsig - Suc i) ?T = d # drop (dsig - i) ?T"
  proof -
    have "dsig - Suc i < length ?T" using Suc assms(3) by simp
    from Cons_nth_drop_Suc [OF this] show ?thesis using Suc assms(3) by (simp add: e d_def)
  qed
  have b: "drop (Suc (dsig - Suc i)) ?W = t # drop (Suc (dsig - i)) ?W"
  proof -
    have "dsig - i < length ?W" using lw by simp
    from Cons_nth_drop_Suc [OF this] show ?thesis
      using Suc lw window_nth [OF assms(2), of "dsig - i"] by (simp add: e t_def)
  qed
  have la: "length (drop (dsig - i) ?T) = i" using Suc assms(3) by simp
  have lb: "length (drop (Suc (dsig - i)) ?W) = i" using Suc lw by simp
  have ra: "0 \<le> A \<and> A < 10 ^ i"
  proof -
    have "\<forall>x \<in> set (drop (dsig - i) ?T). 0 \<le> x \<and> x \<le> 9"
      using assms(4) by (meson in_set_dropD)
    from dval_range [OF this] show ?thesis by (simp only: la A_def)
  qed
  have rb: "0 \<le> B \<and> B < 10 ^ i"
  proof -
    have "\<forall>x \<in> set (drop (Suc (dsig - i)) ?W). 0 \<le> x \<and> x \<le> 9"
      using assms(5) by (meson in_set_dropD)
    from dval_range [OF this] show ?thesis by (simp only: lb B_def)
  qed
  have va: "dval (drop (dsig - Suc i) ?T) = d * 10 ^ i + A"
    by (simp only: a dval_Cons la A_def)
  have vb: "dval (drop (Suc (dsig - Suc i)) ?W) = t * 10 ^ i + B"
    by (simp only: b dval_Cons lb B_def)
  have r: "rd dds (int dsig - (int (Suc i) - 1) - 1) = Some d"
    using Suc assms(3) by (simp add: rd_def d_def nat_diff_distrib)
  have rt: "rd tw (int dsig + ni - (int (Suc i) - 1)) = Some t"
  proof -
    have x: "int dsig + ni - (int (Suc i) - 1) = int (nat ni + dsig - i)"
      using Suc assms(1) by auto
    have "rd tw (int (nat ni + dsig - i)) = Some t"
      using assms(2) by (simp add: rd_def t_def)
    then show ?thesis by (simp only: x)
  qed
  have ih: "cmp_loop (int i - 1) 1 dds dsig tw ni = Some (if A > B then 1 else 0)"
    using Suc by (simp add: A_def B_def)
  have i0: "int (Suc i) - 1 \<ge> 0" "int (Suc i) - 1 \<noteq> 0" "int (Suc i) - 1 - 1 = int i - 1"
    using Suc by auto
  have gt: "d > t \<Longrightarrow> d * 10 ^ i + A > t * 10 ^ i + B"
  proof -
    assume "d > t"
    then have "t + 1 \<le> d" by simp
    then have "(t + 1) * 10 ^ i \<le> d * 10 ^ i" by (intro mult_right_mono) auto
    then show ?thesis using ra rb by (simp add: algebra_simps)
  qed
  have lt: "d < t \<Longrightarrow> \<not> d * 10 ^ i + A > t * 10 ^ i + B"
  proof -
    assume "d < t"
    then have "d + 1 \<le> t" by simp
    then have "(d + 1) * 10 ^ i \<le> t * 10 ^ i" by (intro mult_right_mono) auto
    then show ?thesis using ra rb by (simp add: algebra_simps)
  qed
  consider "d > t" | "d < t" | "d = t" by linarith
  then show ?case
  proof cases
    case 1
    then show ?thesis using gt
      by (subst cmp_loop.simps)
         (simp only: va vb r rt Option.bind.bind_lunit, simp add: i0 cmp_loop_exit)
  next
    case 2
    then show ?thesis using lt
      by (subst cmp_loop.simps)
         (simp only: va vb r rt Option.bind.bind_lunit, simp add: i0 cmp_loop_zero)
  next
    case 3
    then show ?thesis using ih Suc(1)
      by (subst cmp_loop.simps)
         (simp only: va vb r rt Option.bind.bind_lunit, simp add: i0)
  qed
qed

lemma window_head_nonneg:
  assumes "length w = Suc n" and "\<forall>k \<le> n. (if k = 0 then - 1 else 0) \<le> w ! k \<and> w ! k \<le> 9"
    and "0 \<le> dval w"
  shows "0 \<le> w ! 0"
proof -
  obtain x xs where w: "w = x # xs" using assms(1) by (cases w) auto
  have l: "length xs = n" using assms(1) w by simp
  have "\<forall>d \<in> set xs. 0 \<le> d \<and> d \<le> 9"
  proof
    fix d assume "d \<in> set xs"
    then obtain j where j: "j < length xs" "xs ! j = d" by (auto simp: in_set_conv_nth)
    then have "Suc j \<le> n" using l by simp
    with assms(2) have "(if Suc j = 0 then - 1 else 0) \<le> w ! Suc j \<and> w ! Suc j \<le> 9" by blast
    then show "0 \<le> d \<and> d \<le> 9" using j w by simp
  qed
  from dval_range [OF this] have r: "dval xs < 10 ^ n" using l by simp
  have v: "dval w = x * 10 ^ n + dval xs" using w l by (simp add: dval_Cons)
  show ?thesis
  proof (rule ccontr)
    assume "\<not> 0 \<le> w ! 0"
    then have "x \<le> - 1" using w by simp
    then have "x * 10 ^ n \<le> (- 1) * 10 ^ n" by (intro mult_right_mono) auto
    then have "x * 10 ^ n \<le> - (10 ^ n)" by simp
    then show False using r v assms(3) by linarith
  qed
qed

lemma digit_loop_total:
  assumes "0 \<le> ni" and "dsig \<le> length dds"
    and "\<forall>d \<in> set (take dsig dds). 0 \<le> d \<and> d \<le> 9"
    and "0 < dval (take dsig dds)"
    and "nat ni + dsig < length tw" and "\<forall>x \<in> set tw. 0 \<le> x \<and> x \<le> 9"
  shows "\<exists>cd' tw'. digit_loop dds dsig tw ni cd = Some (cd', tw') \<and> length tw' = length tw
           \<and> (\<forall>x \<in> set tw'. 0 \<le> x \<and> x \<le> 9)
           \<and> (if dval (take dsig dds) \<le> dval (window (nat ni) dsig tw) then cd < cd'
               else cd' = cd \<and> tw' = tw)"
  using assms(5,6)
proof (induction "nat (dval (window (nat ni) dsig tw))" arbitrary: tw cd rule: less_induct)
  case less
  let ?N = "nat ni"
  let ?W = "window ?N dsig tw"
  let ?D = "dval (take dsig dds)"
  have lw: "length ?W = Suc dsig" using window_length [OF less(2)] .
  have wr: "\<forall>x \<in> set ?W. 0 \<le> x \<and> x \<le> 9"
    using less(3) unfolding window_def by (meson in_set_takeD in_set_dropD)
  have dpos: "1 \<le> dsig"
  proof (rule ccontr)
    assume "\<not> 1 \<le> dsig"
    then have "dsig = 0" by simp
    then show False using assms(4) by simp
  qed
  have dr: "?D < 10 ^ dsig"
    using dval_range [OF assms(3)] assms(2) by simp
  define w0 where "w0 = tw ! ?N"
  define B where "B = dval (drop (Suc 0) ?W)"
  have w: "?W = w0 # drop (Suc 0) ?W"
  proof -
    have "0 < length ?W" using lw by simp
    from Cons_nth_drop_Suc [OF this] show ?thesis
      using window_nth [OF less(2), of 0] by (simp add: w0_def)
  qed
  have lb: "length (drop (Suc 0) ?W) = dsig" using lw by simp
  have v: "dval ?W = w0 * 10 ^ dsig + B"
  proof -
    have "dval (w0 # drop (Suc 0) ?W) = w0 * 10 ^ dsig + B" by (simp only: dval_Cons lb B_def)
    then show ?thesis using w by simp
  qed
  have br: "0 \<le> B \<and> B < 10 ^ dsig"
  proof -
    have "\<forall>x \<in> set (drop (Suc 0) ?W). 0 \<le> x \<and> x \<le> 9" using wr by (meson in_set_dropD)
    from dval_range [OF this] show ?thesis by (simp only: lb B_def)
  qed
  have w0r: "0 \<le> w0" "w0 \<le> 9"
    using less(2,3) by (auto simp: w0_def)
  have t0: "rd tw ni = Some w0"
    using assms(1) less(2) by (simp add: rd_def w0_def)
  have cmp: "cmp_loop (int dsig - 1) (if w0 > 0 then 0 else 1) dds dsig tw ni
             = Some (if ?D > dval ?W then 1 else 0)"
  proof (cases "w0 > 0")
    case True
    then have "(1::int) * 10 ^ dsig \<le> w0 * 10 ^ dsig" by (intro mult_right_mono) auto
    then have "(10::int) ^ dsig \<le> w0 * 10 ^ dsig" by (simp only: mult_1)
    then have "\<not> ?D > dval ?W" using dr br v by linarith
    then show ?thesis using True by (simp add: cmp_loop_zero)
  next
    case False
    then have z: "w0 = 0" using w0r by simp
    have "cmp_loop (int dsig - 1) 1 dds dsig tw ni
          = Some (if dval (drop (dsig - dsig) (take dsig dds))
                      > dval (drop (Suc (dsig - dsig)) ?W) then 1 else 0)"
      using cmp_loop_val [OF assms(1) less(2) assms(2,3) wr dpos] by simp
    then show ?thesis using z v by (simp add: B_def)
  qed
  show ?case
  proof (cases "?D > dval ?W")
    case True
    have "digit_loop dds dsig tw ni cd = Some (cd, tw)"
      by (subst digit_loop.simps) (simp only: t0 cmp Option.bind.bind_lunit True, simp)
    then show ?thesis using True less(3) by simp
  next
    case False
    have rg: "\<forall>k \<le> dsig. (if k = dsig - 0 then - 1 else 0) \<le> ?W ! k \<and> ?W ! k \<le> 9"
    proof (intro allI impI)
      fix k assume "k \<le> dsig"
      then have "?W ! k \<in> set ?W" using lw by (intro nth_mem) simp
      then show "(if k = dsig - 0 then - 1 else 0) \<le> ?W ! k \<and> ?W ! k \<le> 9"
        using wr by auto
    qed
    from sub_loop_inv [OF assms(1) less(2) assms(2) _ assms(3) rg]
    obtain tw1 where s: "sub_loop 0 dds dsig tw ni = Some tw1" "length tw1 = length tw"
      "\<forall>k < length tw. k < ?N \<or> ?N + dsig < k \<longrightarrow> tw1 ! k = tw ! k"
      "dval (window ?N dsig tw1) = dval ?W - ?D"
      "\<forall>k \<le> dsig. (if k = 0 then - 1 else 0) \<le> window ?N dsig tw1 ! k
                      \<and> window ?N dsig tw1 ! k \<le> 9"
      by auto
    have b1: "?N + dsig < length tw1" using s(2) less(2) by simp
    have l1: "length (window ?N dsig tw1) = Suc dsig" using window_length [OF b1] .
    have nn: "0 \<le> dval (window ?N dsig tw1)" using s(4) False by simp
    have h: "0 \<le> window ?N dsig tw1 ! 0"
      using window_head_nonneg [OF l1 s(5) nn] .
    have r1: "\<forall>x \<in> set tw1. 0 \<le> x \<and> x \<le> 9"
    proof
      fix x assume "x \<in> set tw1"
      then obtain k where k: "k < length tw1" "tw1 ! k = x" by (auto simp: in_set_conv_nth)
      show "0 \<le> x \<and> x \<le> 9"
      proof (cases "k < ?N \<or> ?N + dsig < k")
        case True
        then have "tw1 ! k = tw ! k" using s(3) [rule_format, of k] k(1) s(2) by simp
        moreover have "tw ! k \<in> set tw" using k(1) s(2) by simp
        ultimately show ?thesis using less(3) k(2) by auto
      next
        case False
        then have kk: "k - ?N \<le> dsig" "?N + (k - ?N) = k" by auto
        have "window ?N dsig tw1 ! (k - ?N) = tw1 ! k"
          using window_nth [OF b1 kk(1)] kk(2) by simp
        moreover have "(if k - ?N = 0 then - 1 else 0) \<le> window ?N dsig tw1 ! (k - ?N)
                       \<and> window ?N dsig tw1 ! (k - ?N) \<le> 9"
          using s(5) kk(1) by blast
        ultimately show ?thesis using h k(2) by (cases "k - ?N = 0") auto
      qed
    qed
    have m: "nat (dval (window ?N dsig tw1)) < nat (dval ?W)"
      using s(4) nn assms(4) by simp
    from less(1) [OF m b1 r1, of "cd + 1"]
    obtain cd' tw' where ih: "digit_loop dds dsig tw1 ni (cd + 1) = Some (cd', tw')"
      "length tw' = length tw1" "\<forall>x \<in> set tw'. 0 \<le> x \<and> x \<le> 9" "cd + 1 \<le> cd'"
      by (auto split: if_splits)
    have "digit_loop dds dsig tw ni cd = Some (cd', tw')"
      by (subst digit_loop.simps) (simp only: t0 cmp Option.bind.bind_lunit False s(1), simp add: ih(1))
    then show ?thesis using False ih s(2) by simp
  qed
qed

lemma zdet_loop_total:
  assumes "0 \<le> ni" and "nat ni + dsig < length tw" and "0 \<le> i"
  shows "\<exists>z. zdet_loop i zc dsig tw ni = Some z"
  using assms(3)
proof (induction "nat (int dsig + 1 - i)" arbitrary: i zc)
  case 0
  then have "\<not> i \<le> int dsig" by simp
  then show ?case by (subst zdet_loop.simps) simp
next
  case (Suc m)
  have m: "m = nat (int dsig + 1 - (i + 1))" using Suc(2) by simp
  have i: "i \<le> int dsig" using Suc(2) by simp
  have r: "rd tw (ni + i) = Some (tw ! nat (ni + i))"
    using assms(1,2) Suc(3) i by (simp add: rd_def)
  obtain z where "zdet_loop (i + 1) (if tw ! nat (ni + i) < 1 then zc + 1 else zc) dsig tw ni
                  = Some z"
    using Suc(1) [OF m] Suc(3) by fastforce
  then show ?case using r
    by (subst zdet_loop.simps) (cases "i = zc", auto)
qed

lemma zero_loop_total:
  assumes "k \<le> nat i" and "0 \<le> i" and "nat i < length xs" and "xs ! k \<noteq> 0"
  shows "\<exists>z. zero_loop i xs zc = Some z \<and> zc \<le> z \<and> z - zc \<le> i - int k"
  using assms(1,2,3)
proof (induction "nat i - k" arbitrary: i zc)
  case 0
  then have "nat i = k" by simp
  then have "rd xs i = Some (xs ! k)" using 0 by (simp add: rd_def)
  then show ?case using assms(4) 0 by (subst zero_loop.simps) simp
next
  case (Suc m)
  have r: "rd xs i = Some (xs ! nat i)" using Suc by (simp add: rd_def)
  show ?case
  proof (cases "xs ! nat i = 0")
    case False
    then show ?thesis using r Suc by (subst zero_loop.simps) simp
  next
    case True
    have "\<exists>z. zero_loop (i - 1) xs (zc + 1) = Some z \<and> zc + 1 \<le> z
              \<and> z - (zc + 1) \<le> i - 1 - int k"
    proof (rule Suc(1))
      show "m = nat (i - 1) - k" using Suc(2) by simp
      show "k \<le> nat (i - 1)" using Suc(2) by simp
      show "0 \<le> i - 1" using Suc(2) by simp
      show "nat (i - 1) < length xs" using Suc(5) by simp
    qed
    then obtain z where "zero_loop (i - 1) xs (zc + 1) = Some z" "zc + 1 \<le> z"
      "z - (zc + 1) \<le> i - 1 - int k" by blast
    then show ?thesis using r True by (subst zero_loop.simps) simp
  qed
qed

lemma load_loop_total:
  assumes "n \<le> length nds" and "n < length tw"
    and "\<forall>d \<in> set nds. 0 \<le> d \<and> d \<le> 9" and "\<forall>x \<in> set tw. 0 \<le> x \<and> x \<le> 9"
    and "i \<le> n"
  shows "\<exists>tw'. load_loop (int i) n tw nds = Some tw' \<and> length tw' = length tw
           \<and> (\<forall>x \<in> set tw'. 0 \<le> x \<and> x \<le> 9)
           \<and> (\<forall>k. i \<le> k \<and> k < n \<longrightarrow> tw' ! Suc k = nds ! k)
           \<and> (\<forall>k < length tw. k \<le> i \<or> n < k \<longrightarrow> tw' ! k = tw ! k)"
  using assms(2,4,5)
proof (induction "n - i" arbitrary: i tw)
  case 0
  then have "i = n" by simp
  then show ?case using 0 by (subst load_loop.simps) simp
next
  case (Suc m)
  have i: "i < n" using Suc(2) by simp
  have r: "rd nds (int i) = Some (nds ! i)" using i assms(1) by (simp add: rd_def)
  have w: "wr tw (int i + 1) (nds ! i) = Some (tw[Suc i := nds ! i])"
    using i Suc(3) by (simp add: wr_def nat_add_distrib)
  have rg: "0 \<le> nds ! i \<and> nds ! i \<le> 9" using assms(1,3) i by simp
  have "\<exists>tw'. load_loop (int (Suc i)) n (tw[Suc i := nds ! i]) nds = Some tw'
           \<and> length tw' = length (tw[Suc i := nds ! i])
           \<and> (\<forall>x \<in> set tw'. 0 \<le> x \<and> x \<le> 9)
           \<and> (\<forall>k. Suc i \<le> k \<and> k < n \<longrightarrow> tw' ! Suc k = nds ! k)
           \<and> (\<forall>k < length (tw[Suc i := nds ! i]). k \<le> Suc i \<or> n < k
                  \<longrightarrow> tw' ! k = (tw[Suc i := nds ! i]) ! k)"
  proof (rule Suc(1))
    show "m = n - Suc i" using Suc(2) by simp
    show "n < length (tw[Suc i := nds ! i])" using Suc(3) by simp
    show "\<forall>x \<in> set (tw[Suc i := nds ! i]). 0 \<le> x \<and> x \<le> 9"
    proof
      fix x assume "x \<in> set (tw[Suc i := nds ! i])"
      then have "x \<in> insert (nds ! i) (set tw)"
        using set_update_subset_insert [of tw "Suc i" "nds ! i"] by blast
      then show "0 \<le> x \<and> x \<le> 9" using Suc(4) rg by auto
    qed
    show "Suc i \<le> n" using i by simp
  qed
  then obtain tw' where t: "load_loop (int (Suc i)) n (tw[Suc i := nds ! i]) nds = Some tw'"
      "length tw' = length tw" "\<forall>x \<in> set tw'. 0 \<le> x \<and> x \<le> 9"
      "\<forall>k. Suc i \<le> k \<and> k < n \<longrightarrow> tw' ! Suc k = nds ! k"
      "\<forall>k < length tw. k \<le> Suc i \<or> n < k \<longrightarrow> tw' ! k = (tw[Suc i := nds ! i]) ! k"
    by auto
  have e: "int i + 1 = int (Suc i)" by simp
  have l: "load_loop (int i) n tw nds = Some tw'"
  proof -
    have "int i < int n" using i by simp
    then show ?thesis
      by (subst load_loop.simps) (simp only: r w Option.bind.bind_lunit if_True, simp only: e t(1))
  qed
  have a: "\<forall>k. i \<le> k \<and> k < n \<longrightarrow> tw' ! Suc k = nds ! k"
  proof (intro allI impI)
    fix k assume k: "i \<le> k \<and> k < n"
    show "tw' ! Suc k = nds ! k"
    proof (cases "k = i")
      case True
      have "tw' ! Suc i = (tw[Suc i := nds ! i]) ! Suc i"
        using t(5) [rule_format, of "Suc i"] i Suc(3) by simp
      then show ?thesis using True i Suc(3) by simp
    next
      case False
      then show ?thesis using t(4) k by simp
    qed
  qed
  have b: "\<forall>k < length tw. k \<le> i \<or> n < k \<longrightarrow> tw' ! k = tw ! k"
  proof (intro allI impI)
    fix k assume k: "k < length tw" "k \<le> i \<or> n < k"
    then have "tw' ! k = (tw[Suc i := nds ! i]) ! k"
      using t(5) [rule_format, of k] by auto
    moreover have "k \<noteq> Suc i" using k i by auto
    ultimately show "tw' ! k = tw ! k" by simp
  qed
  show ?case using l t(2,3) a b by blast
qed

lemma div_loop_total:
  assumes "dsig \<le> length dds" and "\<forall>d \<in> set (take dsig dds). 0 \<le> d \<and> d \<le> 9"
    and "0 < dval (take dsig dds)" and "dsig \<le> prec"
    and "length rds = prec" and "length tw = 2 * prec + 2"
    and "\<forall>x \<in> set tw. 0 \<le> x \<and> x \<le> 9"
    and "0 \<le> s" and "0 \<le> ni" and "ni \<le> s + 1"
  shows "\<exists>s' rds'. div_loop s ni nz prec nsig dds dsig tw rds = Some (s', rds')
           \<and> length rds' = length rds \<and> s \<le> s' \<and> (s' \<le> int prec \<or> s' = s)
           \<and> (\<forall>k < length rds. int k < s \<longrightarrow> rds' ! k = rds ! k)
           \<and> (nz = 1 \<and> s < int prec \<and> dval (take dsig dds) \<le> dval (window (nat ni) dsig tw)
                \<longrightarrow> s < s' \<and> 1 \<le> rds' ! nat s)"
  using assms(5-10)
proof (induction "nat (int prec - s)" arbitrary: s ni nz tw rds)
  case 0
  then have "\<not> s < int prec" by simp
  then show ?case by (subst div_loop.simps) simp
next
  case (Suc m)
  have s: "s < int prec" using Suc(2) by simp
  show ?case
  proof (cases "nz = 1")
    case False
    then show ?thesis by (subst div_loop.simps) simp
  next
    case True
    have b: "nat ni + dsig < length tw" using Suc(4,7,8) s assms(4) by simp
    from digit_loop_total [OF Suc(7) assms(1,2,3) b Suc(5), of 0]
    obtain cd tw1 where d: "digit_loop dds dsig tw ni 0 = Some (cd, tw1)"
      "length tw1 = length tw" "\<forall>x \<in> set tw1. 0 \<le> x \<and> x \<le> 9"
      "dval (take dsig dds) \<le> dval (window (nat ni) dsig tw) \<longrightarrow> 0 < cd"
      by (auto split: if_splits)
    have b1: "nat ni + dsig < length tw1" using b d(2) by simp
    obtain z where z: "zdet_loop 0 0 dsig tw1 ni = Some z"
      using zdet_loop_total [OF Suc(7) b1, of 0 0] by auto
    define nz' where "nz' = (if s > int nsig then (if z = int dsig + 1 then 0 else nz) else nz)"
    have w: "wr rds s cd = Some (rds[nat s := cd])"
      using Suc(3,6) s by (simp add: wr_def)
    have step: "div_loop s ni nz prec nsig dds dsig tw rds
                = div_loop (s + 1) (ni + 1) nz' prec nsig dds dsig tw1 (rds[nat s := cd])"
      using s True
      by (subst div_loop.simps) (simp add: d(1) z w nz'_def)
    have "\<exists>s' rds'. div_loop (s + 1) (ni + 1) nz' prec nsig dds dsig tw1 (rds[nat s := cd])
               = Some (s', rds')
           \<and> length rds' = length (rds[nat s := cd]) \<and> s + 1 \<le> s'
           \<and> (s' \<le> int prec \<or> s' = s + 1)
           \<and> (\<forall>k < length (rds[nat s := cd]). int k < s + 1
                 \<longrightarrow> rds' ! k = (rds[nat s := cd]) ! k)
           \<and> (nz' = 1 \<and> s + 1 < int prec
                 \<and> dval (take dsig dds) \<le> dval (window (nat (ni + 1)) dsig tw1)
                \<longrightarrow> s + 1 < s' \<and> 1 \<le> rds' ! nat (s + 1))"
    proof (rule Suc(1))
      show "m = nat (int prec - (s + 1))" using Suc(2) by simp
      show "length (rds[nat s := cd]) = prec" using Suc(3) by simp
      show "length tw1 = 2 * prec + 2" using d(2) Suc(4) by simp
      show "\<forall>x \<in> set tw1. 0 \<le> x \<and> x \<le> 9" using d(3) .
      show "0 \<le> s + 1" using Suc(6) by simp
      show "0 \<le> ni + 1" using Suc(7) by simp
      show "ni + 1 \<le> s + 1 + 1" using Suc(8) by simp
    qed
    then obtain s' rds' where r:
      "div_loop (s + 1) (ni + 1) nz' prec nsig dds dsig tw1 (rds[nat s := cd]) = Some (s', rds')"
      "length rds' = length rds" "s + 1 \<le> s'" "s' \<le> int prec \<or> s' = s + 1"
      "\<forall>k < length rds. int k < s + 1 \<longrightarrow> rds' ! k = (rds[nat s := cd]) ! k"
      by auto
    have sp: "s' \<le> int prec" using r(4) s by auto
    have fr: "\<forall>k < length rds. int k < s \<longrightarrow> rds' ! k = rds ! k"
    proof (intro allI impI)
      fix k assume k: "k < length rds" "int k < s"
      then have "rds' ! k = (rds[nat s := cd]) ! k" using r(5) [rule_format, of k] by simp
      moreover have "k \<noteq> nat s" using k by auto
      ultimately show "rds' ! k = rds ! k" by simp
    qed
    have hd: "rds' ! nat s = cd"
    proof -
      have "nat s < length rds" "int (nat s) < s + 1" using Suc(3,6) s by auto
      then have "rds' ! nat s = (rds[nat s := cd]) ! nat s"
        using r(5) [rule_format, of "nat s"] by simp
      then show ?thesis using Suc(3,6) s by simp
    qed
    show ?thesis
      using step r(1,2,3) sp fr hd d(4) by auto
  qed
qed

lemma dval_lead:
  assumes "xs \<noteq> []" and "\<forall>d \<in> set xs. 0 \<le> d \<and> d \<le> 9" and "xs ! 0 \<noteq> 0"
  shows "10 ^ (length xs - 1) \<le> dval xs"
proof -
  obtain x ys where xs: "xs = x # ys" using assms(1) by (cases xs) auto
  have "\<forall>d \<in> set ys. 0 \<le> d \<and> d \<le> 9" using assms(2) xs by simp
  from dval_range [OF this] have a: "0 \<le> dval ys" by simp
  have "1 \<le> x" using assms(2,3) xs by force
  then have "(1::int) * 10 ^ length ys \<le> x * 10 ^ length ys" by (intro mult_right_mono) auto
  then have b: "(10::int) ^ length ys \<le> x * 10 ^ length ys" by (simp only: mult_1)
  have c: "dval xs = x * 10 ^ length ys + dval ys" using xs by (simp add: dval_Cons)
  have "length xs - 1 = length ys" using xs by simp
  then show ?thesis using a b c by (simp only:)
qed

lemma bignum_divide_total:
  assumes "well_formed r" and "well_formed n" and "well_formed d"
    and "precision n = precision r" and "precision d = precision r"
    and "sig_digs n \<noteq> 0" and "sig_digs d \<noteq> 0"
    and "digits n ! 0 \<noteq> 0" and "digits d ! 0 \<noteq> 0"
  shows "\<exists>r'. bignum_divide True r n d = Some (1, r') \<and> 1 \<le> sig_digs r'
           \<and> sig_digs r' \<le> precision r' \<and> precision r' = precision r
           \<and> length (digits r') = precision r \<and> digits r' ! 0 \<noteq> 0"
proof -
  define p where "p = precision r"
  define nsig where "nsig = sig_digs n"
  define dsig where "dsig = sig_digs d"
  define nds where "nds = digits n"
  define dds where "dds = digits d"
  obtain r0 where r0: "bignum_reset r = Some r0" "digits r0 = replicate p 0"
      "sig_digs r0 = 0" "precision r0 = p"
    using bignum_reset_wf [OF assms(1)] p_def by auto
  have wn: "length nds = p" "nsig \<le> p" "\<forall>x \<in> set nds. 0 \<le> x \<and> x \<le> 9" "1 \<le> nsig"
    using assms(2,4,6) by (auto simp: well_formed_def p_def nsig_def nds_def)
  have wd: "length dds = p" "dsig \<le> p" "\<forall>x \<in> set dds. 0 \<le> x \<and> x \<le> 9" "1 \<le> dsig"
    using assms(3,5,7) by (auto simp: well_formed_def p_def dsig_def dds_def)
  have dr: "\<forall>x \<in> set (take dsig dds). 0 \<le> x \<and> x \<le> 9"
    using wd(3) by (meson in_set_takeD)
  define D where "D = dval (take dsig dds)"
  have Dpos: "0 < D" and Dlt: "D < 10 ^ dsig"
  proof -
    have "take dsig dds \<noteq> []" using wd by auto
    moreover have "take dsig dds ! 0 \<noteq> 0" using wd assms(9) by (simp add: dds_def)
    ultimately have "10 ^ (length (take dsig dds) - 1) \<le> D"
      unfolding D_def using dr by (intro dval_lead)
    moreover have "(0::int) < 10 ^ (length (take dsig dds) - 1)" by simp
    ultimately show "0 < D" by linarith
    show "D < 10 ^ dsig" using dval_range [OF dr] wd by (simp add: D_def)
  qed
  have "\<exists>tw'. load_loop (int 0) nsig (replicate (2 * p + 2) 0) nds = Some tw'
           \<and> length tw' = length (replicate (2 * p + 2) (0::int))
           \<and> (\<forall>x \<in> set tw'. 0 \<le> x \<and> x \<le> 9)
           \<and> (\<forall>k. 0 \<le> k \<and> k < nsig \<longrightarrow> tw' ! Suc k = nds ! k)
           \<and> (\<forall>k < length (replicate (2 * p + 2) (0::int)). k \<le> 0 \<or> nsig < k
                 \<longrightarrow> tw' ! k = (replicate (2 * p + 2) 0) ! k)"
    using wn by (intro load_loop_total) auto
  then obtain tw where tw: "load_loop 0 nsig (replicate (2 * p + 2) 0) nds = Some tw"
      "length tw = 2 * p + 2" "\<forall>x \<in> set tw. 0 \<le> x \<and> x \<le> 9"
      "tw ! Suc 0 = nds ! 0" "tw ! 0 = 0"
    using wn(4) by fastforce
  have b0: "nat 0 + dsig < length tw" using tw(2) wd(2) by simp
  have b1: "nat 1 + dsig < length tw" using tw(2) wd(2) by simp
  let ?W0 = "window 0 dsig tw"
  let ?W1 = "window (Suc 0) dsig tw"
  have wr0: "\<forall>x \<in> set (window (nat 0) dsig tw). 0 \<le> x \<and> x \<le> 9"
    using tw(3) unfolding window_def by (meson in_set_takeD in_set_dropD)
  have wr1: "\<forall>x \<in> set ?W1. 0 \<le> x \<and> x \<le> 9"
    using tw(3) unfolding window_def by (meson in_set_takeD in_set_dropD)
  define B where "B = dval (drop (Suc 0) ?W0)"
  have cmp: "cmp_loop (int dsig - 1) 1 dds dsig tw 0 = Some (if D > B then 1 else 0)"
    using cmp_loop_val [OF _ b0 _ dr wr0 wd(4)] wd(1,2) by (simp add: D_def B_def)
  define ni :: int where "ni = (if D > B then 1 else 0)"
  have v0: "dval ?W0 = B"
  proof -
    have l: "length ?W0 = Suc dsig" using window_length [of 0 dsig tw] b0 by simp
    then have "0 < length ?W0" by simp
    from Cons_nth_drop_Suc [OF this] have "?W0 = 0 # drop (Suc 0) ?W0"
      using window_nth [of 0 dsig tw 0] b0 tw(5) by simp
    then have "dval ?W0 = dval (0 # drop (Suc 0) ?W0)" by simp
    then show ?thesis by (simp only: dval_Cons B_def)
  qed
  have v1: "10 ^ dsig \<le> dval ?W1"
  proof -
    have l: "length ?W1 = Suc dsig" using window_length [of "Suc 0" dsig tw] b1 by simp
    have "?W1 ! 0 = tw ! Suc 0" using window_nth [of "Suc 0" dsig tw 0] b1 by simp
    then have "?W1 ! 0 \<noteq> 0" using tw(4) assms(8) by (simp add: nds_def)
    moreover have "?W1 \<noteq> []" using l by auto
    ultimately have "10 ^ (length ?W1 - 1) \<le> dval ?W1" using wr1 by (intro dval_lead)
    then show ?thesis using l by simp
  qed
  have ge: "D \<le> dval (window (nat ni) dsig tw)"
  proof (cases "D > B")
    case True
    then show ?thesis using v1 Dlt by (simp add: ni_def)
  next
    case False
    then show ?thesis using v0 by (simp add: ni_def)
  qed
  have rl: "length (replicate p (0::int)) = p" by simp
  have "\<exists>s' rds'. div_loop 0 ni 1 p nsig dds dsig tw (replicate p 0) = Some (s', rds')
           \<and> length rds' = length (replicate p (0::int)) \<and> 0 \<le> s' \<and> (s' \<le> int p \<or> s' = 0)
           \<and> (\<forall>k < length (replicate p (0::int)). int k < 0 \<longrightarrow> rds' ! k = replicate p 0 ! k)
           \<and> ((1::int) = 1 \<and> 0 < int p \<and> dval (take dsig dds) \<le> dval (window (nat ni) dsig tw)
                \<longrightarrow> 0 < s' \<and> 1 \<le> rds' ! nat 0)"
  proof (rule div_loop_total [OF _ dr _ wd(2) rl tw(2) tw(3)])
    show "dsig \<le> length dds" using wd by simp
    show "0 < dval (take dsig dds)" using Dpos by (simp add: D_def)
    show "(0::int) \<le> 0" by simp
    show "0 \<le> ni" by (simp add: ni_def)
    show "ni \<le> 0 + 1" by (simp add: ni_def)
  qed
  then obtain s' rds' where dl:
      "div_loop 0 ni 1 p nsig dds dsig tw (replicate p 0) = Some (s', rds')"
      "length rds' = p" "0 < s'" "s' \<le> int p" "1 \<le> rds' ! 0"
    using ge wd(2,4) by (auto simp: D_def)
  have "\<exists>z. zero_loop (s' - 1) rds' 0 = Some z \<and> 0 \<le> z \<and> z - 0 \<le> s' - 1 - int 0"
    using dl by (intro zero_loop_total) auto
  then obtain z where z: "zero_loop (s' - 1) rds' 0 = Some z" "0 \<le> z" "z \<le> s' - 1" by auto
  have "bignum_divide True r n d
        = Some (1, r0\<lparr>power10 := power10 n - power10 d - (if D > B then 1 else 0),
                      digits := rds', sig_digs := nat s' - nat z\<rparr>)"
    using assms(6,7) tw(1) cmp dl(1) z(1)
    unfolding nsig_def dsig_def nds_def dds_def ni_def
    by (cases "D > B") (simp_all add: bignum_divide_def r0 Let_def)
  moreover have "1 \<le> nat s' - nat z" "nat s' - nat z \<le> p" using z dl by auto
  ultimately show ?thesis using r0 dl p_def by auto
qed

section \<open>The error return of \<open>bignum_divide\<close>\<close>

text \<open>
  C2.  For a result whose used digits lie inside its array, \<open>bignum_divide\<close> returns
  the failure status 0 when the denominator has no significant digits; when the
  scratch allocation succeeds, it returns 0 in no other case; for a numerator
  without significant digits and a denominator with some, it returns 1 and leaves the
  result reset, a value that prints as \<open>0\<close>; and for well-formed operands of the
  result's precision that both have significant digits and a non-zero first digit,
  the division ends and returns 1 with at least one digit in the result.
\<close>

theorem divide_error:
  assumes "sig_digs r \<le> length (digits r)"
  shows "(sig_digs d = 0 \<longrightarrow>
         (\<exists>r'. bignum_divide ok r n d = Some (0, r') \<and> bignum_reset r = Some r'))
    \<and> (\<forall>r'. bignum_divide True r n d = Some (0, r') \<longrightarrow> sig_digs d = 0)
    \<and> (sig_digs n = 0 \<and> sig_digs d \<noteq> 0 \<longrightarrow>
         (\<exists>r'. bignum_divide ok r n d = Some (1, r') \<and> bignum_reset r = Some r'
               \<and> sig_digs r' = 0 \<and> bignum_print r' 0 = Some ''0''))
    \<and> (well_formed r \<and> well_formed n \<and> well_formed d
         \<and> precision n = precision r \<and> precision d = precision r
         \<and> sig_digs n \<noteq> 0 \<and> sig_digs d \<noteq> 0
         \<and> digits n ! 0 \<noteq> 0 \<and> digits d ! 0 \<noteq> 0 \<longrightarrow>
         (\<exists>r'. bignum_divide True r n d = Some (1, r') \<and> 1 \<le> sig_digs r'
               \<and> sig_digs r' \<le> precision r))"
proof -
  obtain r0 where r0: "bignum_reset r = Some r0"
    using bignum_reset_Some [OF assms] by blast
  have s0: "sig_digs r0 = 0" using bignum_reset_fields(1) [OF r0] .
  have a: "sig_digs d = 0 \<longrightarrow>
         (\<exists>r'. bignum_divide ok r n d = Some (0, r') \<and> bignum_reset r = Some r')"
    using r0 by (simp add: bignum_divide_def)
  have b: "\<forall>r'. bignum_divide True r n d = Some (0, r') \<longrightarrow> sig_digs d = 0"
    by (auto simp: bignum_divide_def Let_def split: bind_splits if_splits prod.splits)
  have c: "sig_digs n = 0 \<and> sig_digs d \<noteq> 0 \<longrightarrow>
         (\<exists>r'. bignum_divide ok r n d = Some (1, r') \<and> bignum_reset r = Some r'
               \<and> sig_digs r' = 0 \<and> bignum_print r' 0 = Some ''0'')"
    using r0 s0 by (simp add: bignum_divide_def bignum_print_def)
  have e: "well_formed r \<and> well_formed n \<and> well_formed d
         \<and> precision n = precision r \<and> precision d = precision r
         \<and> sig_digs n \<noteq> 0 \<and> sig_digs d \<noteq> 0
         \<and> digits n ! 0 \<noteq> 0 \<and> digits d ! 0 \<noteq> 0 \<longrightarrow>
         (\<exists>r'. bignum_divide True r n d = Some (1, r') \<and> 1 \<le> sig_digs r'
               \<and> sig_digs r' \<le> precision r)"
  proof
    assume h: "well_formed r \<and> well_formed n \<and> well_formed d
         \<and> precision n = precision r \<and> precision d = precision r
         \<and> sig_digs n \<noteq> 0 \<and> sig_digs d \<noteq> 0
         \<and> digits n ! 0 \<noteq> 0 \<and> digits d ! 0 \<noteq> 0"
    then obtain r' where "bignum_divide True r n d = Some (1, r')" "1 \<le> sig_digs r'"
      "sig_digs r' \<le> precision r'" "precision r' = precision r"
      using bignum_divide_total [of r n d] by blast
    then show "\<exists>r'. bignum_divide True r n d = Some (1, r') \<and> 1 \<le> sig_digs r'
               \<and> sig_digs r' \<le> precision r"
      by auto
  qed
  from a b c e show ?thesis by (intro conjI)
qed

theorem divide_error_witness:
  "sig_digs (bignum_init 4) \<le> length (digits (bignum_init 4))
   \<and> bignum_divide True (bignum_init 4)
        \<lparr>power10 = 0, sig_digs = 1, digits = [7, 0, 0, 0], precision = 4\<rparr>
        (bignum_init 4) = Some (0, bignum_init 4)
   \<and> bignum_divide True (bignum_init 4) (bignum_init 4)
        \<lparr>power10 = 0, sig_digs = 1, digits = [7, 0, 0, 0], precision = 4\<rparr>
      = Some (1, bignum_init 4)
   \<and> well_formed (bignum_init 4)
   \<and> well_formed \<lparr>power10 = 0, sig_digs = 1, digits = [7, 0, 0, 0], precision = 4\<rparr>
   \<and> well_formed \<lparr>power10 = 0, sig_digs = 1, digits = [2, 0, 0, 0], precision = 4\<rparr>
   \<and> (\<exists>r'. bignum_divide True (bignum_init 4)
        \<lparr>power10 = 0, sig_digs = 1, digits = [7, 0, 0, 0], precision = 4\<rparr>
        \<lparr>power10 = 0, sig_digs = 1, digits = [2, 0, 0, 0], precision = 4\<rparr>
      = Some (1, r') \<and> 1 \<le> sig_digs r' \<and> sig_digs r' \<le> 4)
   \<and> bignum_divide True (bignum_init 4)
        \<lparr>power10 = 0, sig_digs = 1, digits = [7, 0, 0, 0], precision = 4\<rparr>
        \<lparr>power10 = 0, sig_digs = 1, digits = [2, 0, 0, 0], precision = 4\<rparr>
      = Some (1, \<lparr>power10 = 0, sig_digs = 2, digits = [3, 5, 0, 0], precision = 4\<rparr>)"
proof -
  let ?seven = "\<lparr>power10 = 0, sig_digs = 1, digits = [7, 0, 0, 0], precision = 4\<rparr>"
  let ?two = "\<lparr>power10 = 0, sig_digs = 1, digits = [2, 0, 0, 0], precision = 4\<rparr>"
  have h: "sig_digs (bignum_init 4) \<le> length (digits (bignum_init 4))"
    by (simp add: bignum_init_def)
  have w: "well_formed (bignum_init 4)" "well_formed ?seven" "well_formed ?two"
    by (simp_all add: well_formed_def zero_tail_def bignum_init_def)
  have p: "precision ?seven = precision (bignum_init 4)"
    "precision ?two = precision (bignum_init 4)" "precision (bignum_init 4) = 4"
    by (simp_all add: bignum_init_def)
  have e: "bignum_divide True (bignum_init 4) ?seven ?two
      = Some (1, \<lparr>power10 = 0, sig_digs = 2, digits = [3, 5, 0, 0], precision = 4\<rparr>)"
    by code_simp
  have z: "\<exists>r'. bignum_divide True (bignum_init 4) ?seven ?two = Some (1, r')
             \<and> 1 \<le> sig_digs r' \<and> sig_digs r' \<le> 4"
    using divide_error [OF h, of ?two True ?seven] w p by simp
  have a: "bignum_divide True (bignum_init 4) ?seven (bignum_init 4) = Some (0, bignum_init 4)"
    using divide_error [OF h, of "bignum_init 4" True ?seven]
    by (simp add: bignum_init_def bignum_reset_def)
  have b: "bignum_divide True (bignum_init 4) (bignum_init 4) ?seven = Some (1, bignum_init 4)"
    using divide_error [OF h, of ?seven True "bignum_init 4"]
    by (simp add: bignum_init_def bignum_reset_def)
  from h a b w z e show ?thesis by (intro conjI)
qed

section \<open>The work partition of the driver\<close>

lemma div_mult_le_int: fixes x q :: int assumes "0 < q" shows "x div q * q \<le> x"
proof -
  have "x div q * q + x mod q = x" by simp
  moreover have "0 \<le> x mod q" using assms by simp
  ultimately show ?thesis by linarith
qed

lemma less_div_mult_int: fixes x q :: int assumes "0 < q" shows "x < (x div q + 1) * q"
proof -
  have "x div q * q + x mod q = x" by simp
  moreover have "x mod q < q" using assms by simp
  moreover have "(x div q + 1) * q = x div q * q + q" by (simp add: algebra_simps)
  ultimately show ?thesis by linarith
qed

lemma div_less_bound_int:
  fixes x q k :: int assumes "x < k * q" and "0 < q" shows "x div q < k"
proof (rule ccontr)
  assume "\<not> x div q < k"
  then have "k * q \<le> x div q * q" using assms(2) by (intro mult_right_mono) auto
  then show False using div_mult_le_int [OF assms(2), of x] assms(1) by linarith
qed

lemma split_work_map: "split_work i N W md = map (worker_limits N W md) [i..W - 1]"
proof (induction i N W md rule: split_work.induct)
  case (1 i N W md)
  show ?case
  proof (cases "i < W")
    case True
    then have "[i..W - 1] = i # [i + 1..W - 1]" by (simp add: upto_rec1)
    then show ?thesis using 1 True by (subst split_work.simps) simp
  next
    case False
    then show ?thesis by (subst split_work.simps) simp
  qed
qed

lemma split_work_nth:
  "j < nat W \<Longrightarrow> split_work 0 N W md ! j = worker_limits N W md (int j)"
  by (simp add: split_work_map)

lemma quot_bounds:
  fixes N W :: int
  assumes "1 \<le> N" and "1 \<le> W" and "0 \<le> j" and "j < W"
  shows "0 \<le> j * (N div W)" and "(j + 1) * (N div W) \<le> N"
    and "j * (N div W) \<le> (j + 1) * (N div W)" and "j * (N div W) \<le> N"
    and "W \<le> N \<Longrightarrow> j * (N div W) < (j + 1) * (N div W)"
    and "W \<le> N \<Longrightarrow> j * (N div W) < N"
proof -
  have q: "0 \<le> N div W" using assms by (simp add: pos_imp_zdiv_nonneg_iff)
  have wq: "W * (N div W) \<le> N"
    using div_mult_le_int [of W N] assms by (simp add: mult.commute)
  show "0 \<le> j * (N div W)" using assms q by simp
  have "(j + 1) * (N div W) \<le> W * (N div W)" using assms q by (intro mult_right_mono) auto
  then show a: "(j + 1) * (N div W) \<le> N" using wq by simp
  show b: "j * (N div W) \<le> (j + 1) * (N div W)" using q by (intro mult_right_mono) auto
  show "j * (N div W) \<le> N" using a b by simp
  { assume "W \<le> N"
    then have "0 < N div W" using assms by (simp add: pos_imp_zdiv_pos_iff)
    then show c: "j * (N div W) < (j + 1) * (N div W)" by (simp add: algebra_simps)
    then show "j * (N div W) < N" using a by simp }
qed

lemma limits_ordered:
  fixes N W :: int
  assumes "1 \<le> N" and "1 \<le> W" and "0 \<le> i" and "i < j" and "j < W"
  shows "highlimit (worker_limits N W md i) \<le> lowlimit (worker_limits N W md j)"
proof -
  have q: "0 \<le> N div W" using assms by (simp add: pos_imp_zdiv_nonneg_iff)
  have "(i + 1) * (N div W) \<le> j * (N div W)" using assms q by (intro mult_right_mono) auto
  then show ?thesis using assms by (simp add: worker_limits_def)
qed

lemma span_union:
  fixes N W :: int
  assumes "1 \<le> N" and "1 \<le> W"
  shows "(\<Union>l \<in> set (split_work 0 N W md). span l) = {0 ..< N}"
proof (intro equalityI subsetI)
  fix x assume "x \<in> (\<Union>l \<in> set (split_work 0 N W md). span l)"
  then obtain j where j: "0 \<le> j" "j < W" "x \<in> span (worker_limits N W md j)"
    by (auto simp: split_work_map)
  then show "x \<in> {0 ..< N}"
    using quot_bounds(1,2) [OF assms j(1,2)]
    by (auto simp: span_def worker_limits_def split: if_splits)
next
  fix x assume x: "x \<in> {0 ..< N}"
  let ?q = "N div W"
  have q: "0 \<le> ?q" using assms by (simp add: pos_imp_zdiv_nonneg_iff)
  show "x \<in> (\<Union>l \<in> set (split_work 0 N W md). span l)"
  proof (cases "x < (W - 1) * ?q")
    case True
    have "?q \<noteq> 0" using True x by auto
    then have qpos: "0 < ?q" using q by simp
    let ?j = "x div ?q"
    have j0: "0 \<le> ?j" using x qpos by (simp add: pos_imp_zdiv_nonneg_iff)
    have "?j < W - 1" using True qpos by (rule div_less_bound_int)
    then have jW: "?j < W" "?j + 1 \<noteq> W" by auto
    have lo: "?j * ?q \<le> x" using qpos by (rule div_mult_le_int)
    have hi: "x < (?j + 1) * ?q" using qpos by (rule less_div_mult_int)
    have "x \<in> span (worker_limits N W md ?j)"
      using lo hi jW by (simp add: span_def worker_limits_def)
    moreover have "worker_limits N W md ?j \<in> set (split_work 0 N W md)"
      using j0 jW by (simp add: split_work_map)
    ultimately show ?thesis by blast
  next
    case False
    then have "x \<in> span (worker_limits N W md (W - 1))"
      using x by (simp add: span_def worker_limits_def)
    moreover have "worker_limits N W md (W - 1) \<in> set (split_work 0 N W md)"
      using assms by (simp add: split_work_map)
    ultimately show ?thesis by blast
  qed
qed

lemma span_disjoint:
  fixes N W :: int
  assumes "1 \<le> N" and "1 \<le> W" and "i < nat W" and "j < nat W" and "i \<noteq> j"
  shows "span (split_work 0 N W md ! i) \<inter> span (split_work 0 N W md ! j) = {}"
proof -
  have *: "span (worker_limits N W md a) \<inter> span (worker_limits N W md b) = {}"
    if "0 \<le> a" "a < b" "b < W" for a b
    using limits_ordered [OF assms(1,2) that, of md] by (auto simp: span_def)
  consider "i < j" | "j < i" using assms(5) by linarith
  then show ?thesis
  proof cases
    case 1
    then show ?thesis using assms(3,4) * [of "int i" "int j"] by (simp add: split_work_nth)
  next
    case 2
    then show ?thesis using assms(3,4) * [of "int j" "int i"]
      by (simp add: split_work_nth Int_commute)
  qed
qed

lemma limits_worker:
  fixes N W :: int
  assumes "1 \<le> N" and "1 \<le> W" and "j < nat W"
  shows "let l = split_work 0 N W md ! j in
           threadid l = int j \<and> lowlimit l = int j * (N div W)
           \<and> highlimit l = (if int j + 1 = W then N else (int j + 1) * (N div W))
           \<and> 0 \<le> lowlimit l \<and> lowlimit l \<le> highlimit l \<and> highlimit l \<le> N
           \<and> (W \<le> N \<longrightarrow> lowlimit l < highlimit l)
           \<and> (Suc j < nat W \<longrightarrow> highlimit l = lowlimit (split_work 0 N W md ! Suc j))"
proof -
  have j: "0 \<le> int j" "int j < W" using assms(3) by auto
  note b = quot_bounds [OF assms(1,2) j]
  have "Suc j < nat W \<Longrightarrow> split_work 0 N W md ! Suc j = worker_limits N W md (int j + 1)"
    by (simp add: split_work_nth add.commute)
  then show ?thesis
    using b assms(3) by (auto simp: split_work_nth worker_limits_def Let_def)
qed

text \<open>
  C7, as the code has it.  For at least one iteration and at least one thread, the
  loop of \<open>main\<close> makes one descriptor per thread; thread \<open>j\<close> gets the range from
  \<open>j * (N div W)\<close> to \<open>(j + 1) * (N div W)\<close>, the last thread up to \<open>N\<close>; every range
  satisfies \<open>0 \<le> lowlimit \<le> highlimit \<le> N\<close>, and \<open>lowlimit < highlimit\<close> when there
  are no more threads than iterations; the ranges are contiguous, the first starts
  at 0, the last ends at \<open>N\<close>, their union is \<open>{0..<N}\<close> and they are pairwise disjoint.
\<close>

theorem work_partition:
  assumes "1 \<le> N" and "1 \<le> W"
  shows "length (split_work 0 N W md) = nat W
    \<and> (\<forall>j < nat W. let l = split_work 0 N W md ! j in
           threadid l = int j \<and> lowlimit l = int j * (N div W)
           \<and> highlimit l = (if int j + 1 = W then N else (int j + 1) * (N div W))
           \<and> 0 \<le> lowlimit l \<and> lowlimit l \<le> highlimit l \<and> highlimit l \<le> N
           \<and> (W \<le> N \<longrightarrow> lowlimit l < highlimit l)
           \<and> (Suc j < nat W \<longrightarrow> highlimit l = lowlimit (split_work 0 N W md ! Suc j)))
    \<and> lowlimit (split_work 0 N W md ! 0) = 0
    \<and> highlimit (split_work 0 N W md ! (nat W - 1)) = N
    \<and> (\<Union>l \<in> set (split_work 0 N W md). span l) = {0 ..< N}
    \<and> (\<forall>i < nat W. \<forall>j < nat W. i \<noteq> j \<longrightarrow>
          span (split_work 0 N W md ! i) \<inter> span (split_work 0 N W md ! j) = {})"
proof -
  have "length (split_work 0 N W md) = nat W" by (simp add: split_work_map)
  moreover have "lowlimit (split_work 0 N W md ! 0) = 0"
    using assms(2) by (simp add: split_work_nth worker_limits_def)
  moreover have "highlimit (split_work 0 N W md ! (nat W - 1)) = N"
    using assms(2) by (simp add: split_work_nth worker_limits_def)
  ultimately show ?thesis
    using limits_worker [OF assms] span_union [OF assms] span_disjoint [OF assms]
    by blast
qed

theorem work_partition_witness:
  "(1::int) \<le> 10 \<and> (1::int) \<le> 3
   \<and> map (\<lambda>l. (lowlimit l, highlimit l)) (split_work 0 10 3 25) = [(0, 3), (3, 6), (6, 10)]
   \<and> (\<Union>l \<in> set (split_work 0 10 3 25). span l) = {0 ..< 10}"
proof -
  have "map (\<lambda>l. (lowlimit l, highlimit l)) (split_work 0 10 3 25) = [(0, 3), (3, 6), (6, 10)]"
    by code_simp
  then show ?thesis using work_partition [of 10 3 25] by simp
qed

text \<open>
  With one iteration and two threads, thread 0 gets the empty range from 0 to 0, so
  \<open>lowlimit < highlimit\<close> does not hold for every thread.
\<close>

theorem work_partition_counterexample:
  "\<not> lowlimit (split_work 0 1 2 25 ! 0) < highlimit (split_work 0 1 2 25 ! 0)"
  by code_simp

section \<open>The reference line of the output\<close>

text \<open>
  C9, as the code has it.  With a digit budget of 25 the second line of the output is
  \<open>The actual value of pi is     3.\<close> followed by the first 24 digits of the stored
  constant after \<open>3.\<close>, which are \<open>141592653589793238462643\<close>.
\<close>

theorem actual_line_25:
  "actual_line 25 = Some ''The actual value of pi is     3.141592653589793238462643''"
  by code_simp

text \<open>The line is not the one that ends in \<open>...38463383\<close>.\<close>

theorem actual_line_25_counterexample:
  "actual_line 25 \<noteq> Some ''The actual value of pi is     3.141592653589793238463383''"
  by code_simp

section \<open>The scenario \<open>999 + 1\<close>\<close>



section \<open>The invariant of the specification and the carry of \<open>bignum_add\<close>\<close>

text \<open>
  C1, evaluated where it fails.  At precision 3 the bignum 999 satisfies the invariant
  of the specification; \<open>add_int(r, a, 2)\<close> returns success with \<open>sig_digs = 4\<close> on an
  array of 3 digits, holding \<open>1, 0, 0\<close>: the carry out of the first digit moves the
  digits right and counts one more digit without looking at the precision.  A
  following \<open>bignum_reset\<close> of that result writes past the array.  In the same way
  \<open>201 * 5\<close> at precision 3 keeps \<open>1, 0, 0\<close> as three significant digits, the last
  of which is zero: the trailing zeros are counted before the product is cut to the
  precision.
\<close>

theorem add_carry_exceeds_precision:
  "do { (s, a) \<leftarrow> bignum_set_int True (bignum_init 3) 999;
        (s', r) \<leftarrow> bignum_add_int True (bignum_init 3) a 2;
        Some (a, s', r, bignum_reset r) }
   = Some (\<lparr>power10 = 2, sig_digs = 3, digits = [9, 9, 9], precision = 3\<rparr>, 1,
           \<lparr>power10 = 3, sig_digs = 4, digits = [1, 0, 0], precision = 3\<rparr>, None)
   \<and> do { (s, a) \<leftarrow> bignum_set_int True (bignum_init 3) 201;
           (s', r) \<leftarrow> bignum_mult_int True (bignum_init 3) a 5;
           Some (a, s', r) }
     = Some (\<lparr>power10 = 2, sig_digs = 3, digits = [2, 0, 1], precision = 3\<rparr>, 1,
             \<lparr>power10 = 3, sig_digs = 3, digits = [1, 0, 0], precision = 3\<rparr>)"
  by code_simp

lemma spec_invariant_broken:
  "spec_invariant \<lparr>power10 = 2, sig_digs = 3, digits = [9, 9, 9], precision = 3\<rparr>"
  "\<not> spec_invariant \<lparr>power10 = 3, sig_digs = 4, digits = [1, 0, 0], precision = 3\<rparr>"
  "spec_invariant \<lparr>power10 = 2, sig_digs = 3, digits = [2, 0, 1], precision = 3\<rparr>"
  "\<not> spec_invariant \<lparr>power10 = 3, sig_digs = 3, digits = [1, 0, 0], precision = 3\<rparr>"
  by (simp_all add: spec_invariant_def)

section \<open>Integer ingestion\<close>

lemma dec_rev_pos: "0 < n \<Longrightarrow> dec_rev n = n mod 10 # dec_rev (n div 10)"
  by (subst dec_rev.simps) simp

lemma dec_rev_nonpos: "n \<le> 0 \<Longrightarrow> dec_rev n = []"
  by (subst dec_rev.simps) simp

lemma dec_rev_value: "foldr (\<lambda>d a. d + 10 * a) (dec_rev n) 0 = (if 0 < n then n else 0)"
proof (induction n rule: dec_rev.induct)
  case (1 n)
  show ?case
  proof (cases "0 < n")
    case True
    then have "0 \<le> n div 10" by simp
    then have "foldr (\<lambda>d a. d + 10 * a) (dec_rev (n div 10)) 0 = n div 10"
      using 1 True by (cases "0 < n div 10") (auto simp: dec_rev_nonpos)
    then show ?thesis using True by (simp add: dec_rev_pos)
  next
    case False
    then show ?thesis by (simp add: dec_rev_nonpos)
  qed
qed

lemma dec_rev_digit: "d \<in> set (dec_rev n) \<Longrightarrow> 0 \<le> d \<and> d \<le> 9"
proof (induction n rule: dec_rev.induct)
  case (1 n)
  show ?case
  proof (cases "0 < n")
    case True
    then have "d = n mod 10 \<or> d \<in> set (dec_rev (n div 10))"
      using 1(2) by (simp add: dec_rev_pos [OF True])
    then show ?thesis using 1(1) [OF True] by auto
  next
    case False
    then show ?thesis using 1(2) by (simp add: dec_rev_nonpos)
  qed
qed

lemma dec_rev_last: "0 < n \<Longrightarrow> dec_rev n \<noteq> [] \<and> last (dec_rev n) \<noteq> 0"
proof (induction n rule: dec_rev.induct)
  case (1 n)
  show ?case
  proof (cases "0 < n div 10")
    case True
    then show ?thesis using 1 by (simp add: dec_rev_pos)
  next
    case False
    then have "n < 10" using 1(2) by simp
    then have "n mod 10 = n" using 1(2) by simp
    then show ?thesis using 1(2) False by (simp add: dec_rev_pos dec_rev_nonpos)
  qed
qed

lemma split_loop_eq:
  "0 \<le> c \<Longrightarrow> nat c + length (dec_rev t) \<le> length tw \<Longrightarrow>
   split_loop t c tw
     = Some (c + int (length (dec_rev t)),
             take (nat c) tw @ dec_rev t @ drop (nat c + length (dec_rev t)) tw)"
proof (induction t c tw rule: split_loop.induct)
  case (1 t c tw)
  show ?case
  proof (cases "0 < t")
    case True
    let ?k = "nat c" and ?v = "t mod 10" and ?r = "dec_rev (t div 10)"
    have d: "dec_rev t = ?v # ?r" using True by (rule dec_rev_pos)
    have k: "?k < length tw" "Suc ?k + length ?r \<le> length tw" using 1(3) d by auto
    have w: "wr tw c ?v = Some (tw[?k := ?v])" using 1(2) k by (simp add: wr_Some)
    have s: "nat (c + 1) = Suc ?k" using 1(2) by simp
    have ih: "split_loop (t div 10) (c + 1) (tw[?k := ?v])
              = Some (c + 1 + int (length ?r),
                      take (Suc ?k) (tw[?k := ?v]) @ ?r @ drop (Suc ?k + length ?r) (tw[?k := ?v]))"
      using 1(1) [OF True w] 1(2) k s by simp
    have "take (Suc ?k) (tw[?k := ?v]) = take ?k tw @ [?v]"
      using k by (simp add: take_Suc_conv_app_nth)
    moreover have "drop (Suc ?k + length ?r) (tw[?k := ?v]) = drop (Suc ?k + length ?r) tw"
      by simp
    ultimately show ?thesis
      by (subst split_loop.simps) (simp add: True w ih d)
  next
    case False
    then show ?thesis using 1(2) by (subst split_loop.simps) (simp add: dec_rev_nonpos)
  qed
qed

lemma split_loop_None:
  "0 \<le> c \<Longrightarrow> nat c \<le> length tw \<Longrightarrow> length tw < nat c + length (dec_rev t) \<Longrightarrow>
   split_loop t c tw = None"
proof (induction t c tw rule: split_loop.induct)
  case (1 t c tw)
  have t: "0 < t" using 1(3,4) by (cases "0 < t") (auto simp: dec_rev_nonpos)
  have d: "dec_rev t = t mod 10 # dec_rev (t div 10)" using t by (rule dec_rev_pos)
  show ?case
  proof (cases "nat c < length tw")
    case True
    have w: "wr tw c (t mod 10) = Some (tw[nat c := t mod 10])"
      using 1(2) True by (simp add: wr_Some)
    have "split_loop (t div 10) (c + 1) (tw[nat c := t mod 10]) = None"
      using 1(1) [OF t w] 1(2,4) True d by (simp add: nat_add_distrib)
    then show ?thesis by (subst split_loop.simps) (simp add: t w)
  next
    case False
    then have "wr tw c (t mod 10) = None" using 1(2) by (simp add: wr_def)
    then show ?thesis by (subst split_loop.simps) (simp add: t)
  qed
qed

lemma lead_loop_eq:
  "0 \<le> l \<Longrightarrow> \<exists>d \<in> set (drop (nat l) xs). d \<noteq> 0 \<Longrightarrow>
   lead_loop l xs = Some (l + int (length (takeWhile (\<lambda>d. d = 0) (drop (nat l) xs))))"
proof (induction l xs rule: lead_loop.induct)
  case (1 l xs)
  have k: "nat l < length xs" using 1(3) by (cases "nat l < length xs") auto
  have r: "rd xs l = Some (xs ! nat l)" using 1(2) k by (simp add: rd_Some)
  have c: "drop (nat l) xs = xs ! nat l # drop (Suc (nat l)) xs"
    using k by (simp add: Cons_nth_drop_Suc)
  show ?case
  proof (cases "xs ! nat l = 0")
    case True
    have "\<exists>d \<in> set (drop (nat (l + 1)) xs). d \<noteq> 0"
      using 1(2,3) c True by (simp add: nat_add_distrib)
    then have "lead_loop (l + 1) xs
               = Some (l + 1 + int (length (takeWhile (\<lambda>d. d = 0) (drop (nat (l + 1)) xs))))"
      using 1(1) [OF r] True 1(2) by simp
    then show ?thesis using True r c 1(2)
      by (subst lead_loop.simps) (simp add: nat_add_distrib)
  next
    case False
    then show ?thesis using r c by (subst lead_loop.simps) simp
  qed
qed

lemma store_loop_eq:
  "0 \<le> t \<Longrightarrow> t \<le> n \<Longrightarrow> n \<le> counter \<Longrightarrow> nat counter \<le> length tw \<Longrightarrow>
   nat n \<le> length ds \<Longrightarrow>
   store_loop t n counter ds tw
     = Some (take (nat t) ds @ map (\<lambda>j. tw ! (nat counter - Suc j)) [nat t..<nat n]
             @ drop (nat n) ds)"
proof (induction t n counter ds tw rule: store_loop.induct)
  case (1 t n counter ds tw)
  show ?case
  proof (cases "t < n")
    case True
    let ?k = "nat t" and ?v = "tw ! (nat counter - Suc (nat t))"
    have k: "?k < nat n" "?k < length ds" "?k < nat counter" using 1 True by auto
    have ix: "nat (counter - t - 1) = nat counter - Suc ?k" using 1 True by simp
    have r: "rd tw (counter - t - 1) = Some ?v"
      using 1 True by (simp add: rd_def ix)
    have w: "wr ds t ?v = Some (ds[?k := ?v])" using 1 True k by (simp add: wr_Some)
    have s: "nat (t + 1) = Suc ?k" using 1 by simp
    have ih: "store_loop (t + 1) n counter (ds[?k := ?v]) tw
              = Some (take (Suc ?k) (ds[?k := ?v])
                      @ map (\<lambda>j. tw ! (nat counter - Suc j)) [Suc ?k..<nat n]
                      @ drop (nat n) (ds[?k := ?v]))"
      using 1(1) [OF True r w] 1(2-) True s by simp
    have "take (Suc ?k) (ds[?k := ?v]) = take ?k ds @ [?v]"
      using k by (simp add: take_Suc_conv_app_nth)
    moreover have "[?k..<nat n] = ?k # [Suc ?k..<nat n]" using k by (simp add: upt_rec)
    moreover have "drop (nat n) (ds[?k := ?v]) = drop (nat n) ds" using k by simp
    ultimately show ?thesis
      by (subst store_loop.simps) (simp add: True r w ih)
  next
    case False
    then have "nat t = nat n" using 1 by simp
    then show ?thesis using False by (subst store_loop.simps) simp
  qed
qed

lemma takeWhile_zero_replicate:
  "takeWhile (\<lambda>d. d = 0) xs = replicate (length (takeWhile (\<lambda>d. d = 0) xs)) (0::int)"
  by (induction xs) auto

lemma significant_digits_prefix:
  "decimal_digits n
   = significant_digits n @ replicate (length (decimal_digits n) - length (significant_digits n)) 0"
proof -
  let ?P = "\<lambda>d::int. d = 0"
  have "rev (dec_rev n) = rev (dropWhile ?P (dec_rev n)) @ rev (takeWhile ?P (dec_rev n))"
    by (metis rev_append takeWhile_dropWhile_id)
  moreover have "rev (takeWhile ?P (dec_rev n))
                 = replicate (length (takeWhile ?P (dec_rev n))) 0"
    by (metis rev_replicate takeWhile_zero_replicate)
  moreover have "length (dec_rev n) - length (dropWhile ?P (dec_rev n))
                 = length (takeWhile ?P (dec_rev n))"
    by (metis add_diff_cancel_right' length_append takeWhile_dropWhile_id)
  ultimately show ?thesis by (simp add: decimal_digits_def significant_digits_def)
qed

lemma significant_digits_ends:
  assumes "0 < n"
  shows "significant_digits n \<noteq> [] \<and> hd (significant_digits n) \<noteq> 0
         \<and> last (significant_digits n) \<noteq> 0
         \<and> hd (significant_digits n) = hd (decimal_digits n)"
proof -
  let ?P = "\<lambda>d::int. d = 0" and ?xs = "dec_rev n"
  have l: "?xs \<noteq> []" "last ?xs \<noteq> 0" using dec_rev_last [OF assms] by auto
  have ne: "dropWhile ?P ?xs \<noteq> []"
    using l by (metis (mono_tags, lifting) dropWhile_eq_Nil_conv last_in_set)
  have "hd (dropWhile ?P ?xs) \<noteq> 0" using ne by (metis (full_types) hd_dropWhile)
  moreover have "last (dropWhile ?P ?xs) = last ?xs"
    using ne by (metis last_appendR takeWhile_dropWhile_id)
  ultimately show ?thesis
    using ne l by (simp add: significant_digits_def decimal_digits_def hd_rev last_rev)
qed

lemma rev_drop_map:
  "lz \<le> length ys \<Longrightarrow>
   map (\<lambda>j. (ys @ zs) ! (length ys - Suc j)) [0..<length ys - lz] = rev (drop lz ys)"
  by (rule nth_equalityI) (auto simp: rev_nth nth_append)

lemma bignum_set_int_fits:
  assumes "length (digits dst) = precision dst" and "0 < n"
    and "length (decimal_digits n) \<le> precision dst"
  shows "bignum_set_int True dst n
         = Some (1, dst\<lparr>power10 := int (length (decimal_digits n)) - 1,
                         digits := significant_digits n
                                     @ drop (length (significant_digits n)) (digits dst),
                         sig_digs := length (significant_digits n)\<rparr>)"
proof -
  let ?P = "\<lambda>d::int. d = 0" and ?xs = "dec_rev n" and ?p = "precision dst"
  let ?k = "length ?xs" and ?lz = "length (takeWhile ?P ?xs)"
  let ?tw = "?xs @ replicate (?p - ?k) 0"
  have k: "?k \<le> ?p" using assms(3) by (simp add: decimal_digits_def)
  have l: "?xs \<noteq> []" "last ?xs \<noteq> 0" using dec_rev_last [OF assms(2)] by auto
  have lz: "?lz \<le> ?k" by (rule length_takeWhile_le)
  have sp: "split_loop n 0 (replicate ?p 0) = Some (int ?k, ?tw)"
    using k split_loop_eq [of 0 n "replicate ?p 0"] by simp
  have nz: "\<exists>d \<in> set (drop (nat 0) ?tw). d \<noteq> 0"
    using l by (metis (no_types, lifting) UnCI drop0 last_in_set nat_0 set_append)
  have tk: "takeWhile ?P ?tw = takeWhile ?P ?xs"
    using l by (metis (mono_tags, lifting) last_in_set takeWhile_append1)
  have ld: "lead_loop 0 ?tw = Some (int ?lz)"
    using lead_loop_eq [OF _ nz] tk by simp
  have "store_loop 0 (int ?k - int ?lz) (int ?k) (digits dst) ?tw
        = Some (take (nat 0) (digits dst)
                @ map (\<lambda>j. ?tw ! (nat (int ?k) - Suc j)) [nat 0..<nat (int ?k - int ?lz)]
                @ drop (nat (int ?k - int ?lz)) (digits dst))"
    using k lz assms(1) by (intro store_loop_eq) auto
  moreover have "nat (int ?k - int ?lz) = ?k - ?lz" by simp
  moreover have "map (\<lambda>j. ?tw ! (?k - Suc j)) [0..<?k - ?lz] = rev (drop ?lz ?xs)"
    using lz by (rule rev_drop_map)
  moreover have "rev (drop ?lz ?xs) = significant_digits n"
    by (simp add: significant_digits_def dropWhile_eq_drop)
  moreover have "length (significant_digits n) = ?k - ?lz"
    by (simp add: significant_digits_def dropWhile_eq_drop)
  ultimately have st: "store_loop 0 (int ?k - int ?lz) (int ?k) (digits dst) ?tw
        = Some (significant_digits n @ drop (length (significant_digits n)) (digits dst))"
    by simp
  show ?thesis
    using assms(2) sp ld st \<open>length (significant_digits n) = ?k - ?lz\<close>
    by (simp add: bignum_set_int_def decimal_digits_def)
qed

lemma bignum_set_int_overflow:
  assumes "0 < n" and "precision dst < length (decimal_digits n)"
  shows "bignum_set_int True dst n = None"
proof -
  have "split_loop n 0 (replicate (precision dst) 0) = None"
    using assms(2) by (intro split_loop_None) (auto simp: decimal_digits_def)
  then show ?thesis using assms(1) by (simp add: bignum_set_int_def)
qed

text \<open>
  C8, as the code has it.  For a destination whose array has \<open>precision\<close> entries:
  with the scratch allocation succeeding \<open>bignum_set_int\<close> never returns the failure
  status; for a positive integer whose decimal representation, trailing zeros
  included, has at most \<open>precision\<close> digits it returns success, sets the power to
  the number of digits minus one and stores the digits from the most significant one
  through the last non-zero one; for a positive integer with more digits the scratch
  word is overrun and the call has no defined result, nothing is truncated; for an
  integer that is not positive it resets the destination and returns success.
\<close>

theorem set_int_stores:
  assumes "length (digits dst) = precision dst" and "sig_digs dst \<le> precision dst"
  shows "(\<forall>r. bignum_set_int True dst n \<noteq> Some (0, r))
    \<and> (0 < n \<and> length (decimal_digits n) \<le> precision dst \<longrightarrow>
         bignum_set_int True dst n
         = Some (1, dst\<lparr>power10 := int (length (decimal_digits n)) - 1,
                         digits := significant_digits n
                                     @ drop (length (significant_digits n)) (digits dst),
                         sig_digs := length (significant_digits n)\<rparr>))
    \<and> (0 < n \<and> precision dst < length (decimal_digits n) \<longrightarrow>
         bignum_set_int True dst n = None)
    \<and> (n \<le> 0 \<longrightarrow> (\<exists>r. bignum_set_int True dst n = Some (1, r)
                         \<and> bignum_reset dst = Some r \<and> sig_digs r = 0))"
proof -
  have a: "\<forall>r. bignum_set_int True dst n \<noteq> Some (0, r)"
    by (auto simp: bignum_set_int_def split: bind_splits if_splits prod.splits)
  obtain r0 where r0: "bignum_reset dst = Some r0"
    using bignum_reset_Some [of dst] assms by auto
  have d: "n \<le> 0 \<longrightarrow> (\<exists>r. bignum_set_int True dst n = Some (1, r)
                         \<and> bignum_reset dst = Some r \<and> sig_digs r = 0)"
    using r0 bignum_reset_fields(1) [OF r0] by (simp add: bignum_set_int_def)
  show ?thesis
    using a d bignum_set_int_fits [OF assms(1)] bignum_set_int_overflow by blast
qed

theorem set_int_stores_witness:
  "length (digits (bignum_init 6)) = precision (bignum_init 6)
   \<and> sig_digs (bignum_init 6) \<le> precision (bignum_init 6)
   \<and> decimal_digits 20500 = [2, 0, 5, 0, 0] \<and> significant_digits 20500 = [2, 0, 5]
   \<and> bignum_set_int True (bignum_init 6) 20500
     = Some (1, \<lparr>power10 = 4, sig_digs = 3, digits = [2, 0, 5, 0, 0, 0], precision = 6\<rparr>)"
proof -
  have h: "length (digits (bignum_init 6)) = precision (bignum_init 6)"
    "sig_digs (bignum_init 6) \<le> precision (bignum_init 6)"
    by (simp_all add: bignum_init_def)
  have d: "decimal_digits 20500 = [2, 0, 5, 0, 0]" "significant_digits 20500 = [2, 0, 5]"
    by code_simp+
  show ?thesis
    using h d set_int_stores [OF h, of 20500]
    by (simp add: bignum_init_def numeral_eq_Suc)
qed

text \<open>
  At precision 2 the integer 1000 has a single significant digit and the integer 123
  has three; for both the call overruns the scratch word: it neither succeeds nor
  returns the failure status, and it does not store the truncated digits.
\<close>

theorem set_int_stores_counterexample:
  "significant_digits 1000 = [1] \<and> bignum_set_int True (bignum_init 2) 1000 = None
   \<and> significant_digits 123 = [1, 2, 3] \<and> bignum_set_int True (bignum_init 2) 123 = None"
  by code_simp

section \<open>The scenario \<open>1 / 3\<close>\<close>

lemma nat_int_succ: "nat (1 + int j) = Suc j" "nat (int j + 1) = Suc j"
  by simp_all

lemma digit_loop_third:
  assumes "dds \<noteq> []" and "dds ! 0 = 3"
  shows "digit_loop dds (Suc 0) (replicate j 0 @ 1 # 0 # ys) (int j) 0
         = Some (3, replicate j 0 @ 0 # 1 # ys)"
proof -
  note ev = cmp_loop.simps sub_loop.simps rd_def wr_def nth_append list_update_append assms
    nat_int_succ
  have 4: "digit_loop dds (Suc 0) (replicate j 0 @ 0 # 1 # ys) (int j) 3
           = Some (3, replicate j 0 @ 0 # 1 # ys)"
    by (subst digit_loop.simps) (simp add: ev)
  have 3: "digit_loop dds (Suc 0) (replicate j 0 @ 0 # 4 # ys) (int j) 2
           = Some (3, replicate j 0 @ 0 # 1 # ys)"
    by (subst digit_loop.simps) (simp add: ev 4)
  have 2: "digit_loop dds (Suc 0) (replicate j 0 @ 0 # 7 # ys) (int j) 1
           = Some (3, replicate j 0 @ 0 # 1 # ys)"
    by (subst digit_loop.simps) (simp add: ev 3)
  show ?thesis
    by (subst digit_loop.simps) (simp add: ev 2)
qed

lemma div_loop_third:
  assumes "dds \<noteq> []" and "dds ! 0 = 3" and "k \<le> p"
  shows "div_loop (int k) (int k + 1) 1 p (Suc 0) dds (Suc 0)
           (replicate (Suc k) 0 @ 1 # replicate (2 * p - k) 0)
           (replicate k 3 @ replicate (p - k) 0)
         = Some (int p, replicate p 3)"
  using assms(3)
proof (induction "p - k" arbitrary: k)
  case 0
  then have "k = p" by simp
  then show ?case by (subst div_loop.simps) simp
next
  case (Suc d)
  then have k: "k < p" by simp
  obtain e where e: "2 * p - k = Suc e" using k by (cases "2 * p - k") auto
  have e': "2 * p - Suc k = e" using e by simp
  have dl: "digit_loop dds (Suc 0) (replicate (Suc k) 0 @ 1 # 0 # replicate e 0) (int k + 1) 0
            = Some (3, replicate (Suc k) 0 @ 0 # 1 # replicate e 0)"
    using digit_loop_third [OF assms(1,2), of "Suc k" "replicate e 0"]
    by (simp only: of_nat_Suc add.commute)
  have zd: "zdet_loop 0 0 (Suc 0) (replicate (Suc k) 0 @ 0 # 1 # replicate e 0) (int k + 1) = Some 1"
    by (simp add: zdet_loop.simps rd_def nth_append nat_int_succ nat_add_distrib)
  have w: "wr (replicate k 3 @ replicate (p - k) 0) (int k) 3
           = Some (replicate (Suc k) 3 @ replicate (p - Suc k) 0)"
  proof -
    obtain f where f: "p - k = Suc f" using k by (cases "p - k") auto
    then have "p - Suc k = f" by simp
    then show ?thesis using k f
      by (simp add: wr_def list_update_append replicate_append_same)
  qed
  have tw: "replicate (Suc k) 0 @ 0 # 1 # replicate e 0
            = replicate (Suc (Suc k)) (0::int) @ 1 # replicate (2 * p - Suc k) 0"
    using e' by (simp add: replicate_app_Cons_same)
  have "Suc k \<le> p" "d = p - Suc k" using k Suc(2) by auto
  from Suc(1) [OF this(2,1)]
  have ih: "div_loop (int (Suc k)) (int (Suc k) + 1) 1 p (Suc 0) dds (Suc 0)
              (replicate (Suc (Suc k)) 0 @ 1 # replicate (2 * p - Suc k) 0)
              (replicate (Suc k) 3 @ replicate (p - Suc k) 0)
            = Some (int p, replicate p 3)" .
  have ih': "div_loop (int k + 1) (int k + 1 + 1) 1 p (Suc 0) dds (Suc 0)
              (replicate (Suc k) 0 @ 0 # 1 # replicate e 0)
              (replicate (Suc k) 3 @ replicate (p - Suc k) 0)
            = Some (int p, replicate p 3)"
    using ih unfolding tw by (simp only: of_nat_Suc add.commute)
  have c: "int k < int p" using k by simp
  have gt: "(if int k > int (Suc 0)
             then zdet_loop 0 0 (Suc 0) (replicate (Suc k) 0 @ 0 # 1 # replicate e 0) (int k + 1)
                  \<bind> (\<lambda>zerocounter. Some (if zerocounter = int (Suc 0) + 1 then 0 else (1::int)))
             else Some 1) = Some 1"
    by (simp add: zd del: replicate.simps)
  show ?case
    unfolding e
    apply (subst div_loop.simps)
    apply (simp only: c simp_thms if_True replicate_Suc [of e] dl)
    apply (simp only: Option.bind.bind_lunit prod.case gt w ih')
    done
qed

lemma print_loop_replicate:
  assumes "i \<le> n"
  shows "print_loop (int i) (int n) (replicate n 3) out
         = Some (out @ replicate (n - i) (CHR ''3''))"
  using assms
proof (induction "n - i" arbitrary: i out)
  case 0
  then show ?case by (subst print_loop.simps) simp
next
  case (Suc d)
  then have i: "i < n" by simp
  have "print_loop (int (Suc i)) (int n) (replicate n 3) (out @ ''3'')
        = Some ((out @ ''3'') @ replicate (n - Suc i) (CHR ''3''))"
    using Suc(1) [of "Suc i"] Suc(2) i by simp
  moreover have "replicate (n - i) (CHR ''3'') = CHR ''3'' # replicate (n - Suc i) (CHR ''3'')"
    using i by (metis Suc_diff_Suc replicate_Suc)
  ultimately show ?case
    using i by (subst print_loop.simps)
      (simp add: rd_def printf_d_def nat_dec.simps add.commute)
qed

text \<open>
  C3.  For every precision \<open>p\<close> of at least 1, so for every precision of at least
  10: \<open>set_int(a, 1)\<close>, \<open>set_int(b, 3)\<close> and \<open>divide(r, a, b)\<close> on fresh bignums
  of that precision return success, \<open>r\<close> has power \<open>-1\<close>, \<open>p\<close> significant digits
  that are all 3, and printing \<open>r\<close> emits \<open>0.\<close> followed by exactly \<open>p\<close> digits 3.
\<close>

theorem one_third:
  assumes "1 \<le> p"
  shows "do { (s1, a) \<leftarrow> bignum_set_int True (bignum_init p) 1;
              (s2, b) \<leftarrow> bignum_set_int True (bignum_init p) 3;
              (s3, r) \<leftarrow> bignum_divide True (bignum_init p) a b;
              out \<leftarrow> bignum_print r 0;
              Some (s1, s2, s3, r, out) }
         = Some (1, 1, 1,
                 \<lparr>power10 = - 1, sig_digs = p, digits = replicate p 3, precision = p\<rparr>,
                 ''0.'' @ replicate p (CHR ''3''))"
proof -
  obtain q where p: "p = Suc q" using assms by (cases p) auto
  have i: "bignum_init p
           = \<lparr>power10 = 0, sig_digs = 0, digits = 0 # replicate q 0, precision = p\<rparr>"
    by (simp add: bignum_init_def p)
  have a: "bignum_set_int True (bignum_init p) 1
           = Some (1, \<lparr>power10 = 0, sig_digs = 1, digits = 1 # replicate q 0, precision = p\<rparr>)"
    unfolding i
    by (simp add: p bignum_set_int_def split_loop.simps lead_loop.simps store_loop.simps
        rd_def wr_def)
  have b: "bignum_set_int True (bignum_init p) 3
           = Some (1, \<lparr>power10 = 0, sig_digs = 1, digits = 3 # replicate q 0, precision = p\<rparr>)"
    unfolding i
    by (simp add: p bignum_set_int_def split_loop.simps lead_loop.simps store_loop.simps
        rd_def wr_def)
  have ld: "load_loop 0 (Suc 0) (replicate (2 * p + 2) 0) (1 # replicate q 0)
            = Some (replicate (Suc 0) 0 @ 1 # replicate (2 * p - 0) 0)"
    by (simp add: load_loop.simps rd_def wr_def)
  have cm: "cmp_loop (int (Suc 0) - 1) 1 (3 # replicate q 0) (Suc 0)
              (replicate (Suc 0) 0 @ 1 # replicate (2 * p - 0) 0) 0 = Some 1"
    by (simp add: cmp_loop.simps rd_def)
  have dv: "div_loop 0 1 1 p (Suc 0) (3 # replicate q 0) (Suc 0)
              (replicate (Suc 0) 0 @ 1 # replicate (2 * p - 0) 0) (replicate p 0)
            = Some (int p, replicate p 3)"
    using div_loop_third [of "3 # replicate q 0" 0 p] by simp
  have "rd (replicate p 3) (int p - 1) = Some 3"
    using assms by (simp add: rd_def)
  then have zl: "zero_loop (int p - 1) (replicate p 3) 0 = Some 0"
    by (subst zero_loop.simps) simp
  have d: "bignum_divide True (bignum_init p)
             \<lparr>power10 = 0, sig_digs = 1, digits = 1 # replicate q 0, precision = p\<rparr>
             \<lparr>power10 = 0, sig_digs = 1, digits = 3 # replicate q 0, precision = p\<rparr>
           = Some (1, \<lparr>power10 = - 1, sig_digs = p, digits = replicate p 3, precision = p\<rparr>)"
    using ld cm dv zl
    by (simp add: bignum_divide_def bignum_reset_def bignum_init_def)
  have pr: "bignum_print
              \<lparr>power10 = - 1, sig_digs = p, digits = replicate p 3, precision = p\<rparr> 0
            = Some (''0.'' @ replicate p (CHR ''3''))"
    using print_loop_replicate [of 0 p "''0.''"] assms
    by (simp add: bignum_print_def)
  show ?thesis using a b d pr by simp
qed

theorem one_third_witness:
  "(1::nat) \<le> 10
   \<and> do { (s1, a) \<leftarrow> bignum_set_int True (bignum_init 10) 1;
           (s2, b) \<leftarrow> bignum_set_int True (bignum_init 10) 3;
           (s3, r) \<leftarrow> bignum_divide True (bignum_init 10) a b;
           out \<leftarrow> bignum_print r 0;
           Some (s1, s2, s3, r, out) }
     = Some (1, 1, 1,
             \<lparr>power10 = - 1, sig_digs = 10, digits = replicate 10 3, precision = 10\<rparr>,
             ''0.3333333333'')"
  using one_third [of 10] by (simp add: numeral_eq_Suc)

section \<open>Addition: symmetry, frame and totality\<close>

lemma add_loop_rel:
  assumes "length rds = length rds'" and "length bds = length bds'"
    and "length rds = length bds" and "i \<le> int n" and "sdc \<le> int n"
    and "\<forall>k < length rds. (int k < sdc - i \<longrightarrow> rds ! k + bds ! k = rds' ! k + bds' ! k)
                           \<and> (sdc - i \<le> int k \<longrightarrow> rds ! k = rds' ! k)"
  shows "add_loop i n sdc rds bds c tz zc = add_loop i n sdc rds' bds' c tz zc"
  using assms(1,3,4,6)
proof (induction "nat (int n - i)" arbitrary: i rds rds' c tz zc)
  case 0
  then have i: "i = int n" by simp
  have "rds = rds'"
  proof (rule nth_equalityI)
    show "length rds = length rds'" using 0(2) .
  next
    fix k assume "k < length rds"
    then show "rds ! k = rds' ! k" using 0(5) i assms(5) by auto
  qed
  then show ?case using i by (subst (1 2) add_loop.simps) simp
next
  case (Suc m)
  then have i: "i < int n" by simp
  let ?j = "sdc - i - 1"
  show ?case
  proof (cases "0 \<le> ?j \<and> ?j < int (length rds)")
    case False
    then have "rd rds ?j = None" "rd rds' ?j = None" using Suc(3) by (auto simp: rd_def)
    then show ?thesis using i by (subst (1 2) add_loop.simps) simp
  next
    case True
    let ?k = "nat ?j"
    have k: "?k < length rds" "int ?k < sdc - i" using True by auto
    have r: "rd rds ?j = Some (rds ! ?k)" "rd rds' ?j = Some (rds' ! ?k)"
      "rd bds ?j = Some (bds ! ?k)" "rd bds' ?j = Some (bds' ! ?k)"
      using True Suc(3,4) assms(2) by (auto simp: rd_def)
    have s: "rds ! ?k + bds ! ?k = rds' ! ?k + bds' ! ?k" using Suc(6) k by blast
    define v where "v = rds ! ?k + (bds ! ?k + c)"
    have v': "rds' ! ?k + (bds' ! ?k + c) = v" using s by (simp add: v_def)
    define v2 where "v2 = (if v \<ge> 10 then v - 10 else v)"
    have w: "wr rds ?j v2 = Some (rds[?k := v2])" "wr rds' ?j v2 = Some (rds'[?k := v2])"
      using True Suc(3) by (auto simp: wr_def)
    have ih: "add_loop (i + 1) n sdc (rds[?k := v2]) bds c' tz' zc'
              = add_loop (i + 1) n sdc (rds'[?k := v2]) bds' c' tz' zc'" for c' tz' zc'
    proof (rule Suc(1))
      show "m = nat (int n - (i + 1))" using Suc(2) by simp
      show "length (rds[?k := v2]) = length (rds'[?k := v2])" using Suc(3) by simp
      show "length (rds[?k := v2]) = length bds" using Suc(4) by simp
      show "i + 1 \<le> int n" using i by simp
      show "\<forall>k<length (rds[?k := v2]).
              (int k < sdc - (i + 1) \<longrightarrow>
                 rds[?k := v2] ! k + bds ! k = rds'[?k := v2] ! k + bds' ! k)
              \<and> (sdc - (i + 1) \<le> int k \<longrightarrow> rds[?k := v2] ! k = rds'[?k := v2] ! k)"
      proof (intro allI impI conjI)
        fix k assume a: "k < length (rds[?k := v2])" "int k < sdc - (i + 1)"
        then have "k \<noteq> ?k" using True by auto
        then show "rds[?k := v2] ! k + bds ! k = rds'[?k := v2] ! k + bds' ! k"
          using a Suc(6) by auto
      next
        fix k assume a: "k < length (rds[?k := v2])" "sdc - (i + 1) \<le> int k"
        show "rds[?k := v2] ! k = rds'[?k := v2] ! k"
        proof (cases "k = ?k")
          case True
          then show ?thesis using a(1) Suc(3) by simp
        next
          case False
          then have "sdc - i \<le> int k" using a(2) True by auto
          then show ?thesis using False a(1) Suc(6) by auto
        qed
      qed
    qed
    define c2 :: int where "c2 = (if v \<ge> 10 then 1 else 0)"
    define zc2 where "zc2 = (if tz = 1 \<and> v2 = 0 then zc + 1 else zc)"
    define tz2 where "tz2 = (if tz = 1 \<and> v2 \<noteq> 0 then 0 else tz)"
    have "add_loop i n sdc rds bds c tz zc = add_loop (i + 1) n sdc (rds[?k := v2]) bds c2 tz2 zc2"
      using w(1) unfolding v2_def c2_def zc2_def tz2_def v_def
      by (subst add_loop.simps) (simp add: i r Let_def)
    moreover have "add_loop i n sdc rds' bds' c tz zc
                   = add_loop (i + 1) n sdc (rds'[?k := v2]) bds' c2 tz2 zc2"
      using w(2) unfolding v2_def c2_def zc2_def tz2_def v' [symmetric]
      by (subst add_loop.simps) (simp add: i r Let_def)
    ultimately show ?thesis using ih by simp
  qed
qed

lemma shift_loop_same_power:
  assumes "0 \<le> i" and "i \<le> t" and "nat t \<le> length rds" and "nat t \<le> length sds"
  shows "shift_loop i t (t - 1 - i) 0 rds sds
         = Some (take (nat (t - i)) sds @ drop (nat (t - i)) rds)"
  using assms
proof (induction "nat (t - i)" arbitrary: i rds)
  case 0
  then have "i = t" by simp
  then show ?case by (subst shift_loop.simps) simp
next
  case (Suc m)
  then have i: "i < t" by simp
  let ?s = "t - 1 - i"
  have m: "nat ?s = m" "nat (t - i) = Suc m" using Suc(2) by auto
  have b: "m < length rds" "m < length sds" using Suc(5,6) i m Suc(3) by auto
  have r: "rd sds ?s = Some (sds ! m)" using b i m by (simp add: rd_def)
  have w: "wr rds ?s (sds ! m) = Some (rds[m := sds ! m])" using b i m by (simp add: wr_def)
  have "shift_loop (i + 1) t (t - 1 - (i + 1)) 0 (rds[m := sds ! m]) sds
        = Some (take (nat (t - (i + 1))) sds @ drop (nat (t - (i + 1))) (rds[m := sds ! m]))"
    using Suc(2-) i by (intro Suc(1)) auto
  moreover have "nat (t - (i + 1)) = m" using m by simp
  moreover have "t - 1 - (i + 1) = ?s - 1" by simp
  moreover have "take m sds @ drop m (rds[m := sds ! m]) = take (Suc m) sds @ drop (Suc m) rds"
    using b by (simp add: take_Suc_conv_app_nth drop_update_swap Cons_nth_drop_Suc [symmetric]
        upd_conv_take_nth_drop)
  ultimately have ih: "shift_loop (i + 1) t (?s - 1) 0 (rds[m := sds ! m]) sds
                       = Some (take (Suc m) sds @ drop (Suc m) rds)"
    by simp
  have "0 \<le> ?s - 0" using i by simp
  then show ?case
    using ih by (subst shift_loop.simps) (simp add: i r w m)
qed

lemma zero_tail_nth:
  assumes "well_formed b" and "sig_digs b \<le> k" and "k < precision b"
  shows "digits b ! k = 0"
proof -
  have "drop (sig_digs b) (digits b) ! (k - sig_digs b) = digits b ! k"
    using assms by (simp add: well_formed_def)
  moreover have "k - sig_digs b < length (drop (sig_digs b) (digits b))"
    using assms by (simp add: well_formed_def)
  ultimately have "digits b ! k \<in> set (drop (sig_digs b) (digits b))"
    by (metis nth_mem)
  then show ?thesis using assms(1) by (simp add: well_formed_def zero_tail_def)
qed

lemma add_aligned_same_power:
  assumes "digits r0 = replicate (precision r0) 0"
    and "well_formed bigger" and "well_formed smaller"
    and "precision bigger = precision r0" and "precision smaller = precision r0"
    and "power10 bigger = power10 smaller"
  shows "add_aligned r0 bigger smaller
         = add_loop 0 (max (sig_digs bigger) (sig_digs smaller))
             (int (max (sig_digs bigger) (sig_digs smaller)))
             (digits smaller) (digits bigger) 0 1 0
           \<bind> add_finish r0 bigger (max (sig_digs bigger) (sig_digs smaller))"
proof -
  let ?p = "precision r0" and ?t = "int (sig_digs smaller)"
  have le: "sig_digs smaller \<le> ?p" "length (digits smaller) = ?p"
    using assms(3,5) by (simp_all add: well_formed_def)
  have "shift_loop 0 ?t (?t - 1 - 0) 0 (digits r0) (digits smaller)
        = Some (take (nat (?t - 0)) (digits smaller) @ drop (nat (?t - 0)) (digits r0))"
    using le assms(1) by (intro shift_loop_same_power) auto
  moreover have "take (sig_digs smaller) (digits smaller) @ drop (sig_digs smaller) (digits r0)
                 = digits smaller"
    using well_formed_digits [OF assms(3)] assms(1,5) by simp
  ultimately have sh: "shift_loop 0 ?t (?t - 1) 0 (digits r0) (digits smaller)
                       = Some (digits smaller)"
    by simp
  have mx: "(if sig_digs smaller < sig_digs bigger then sig_digs bigger else sig_digs smaller)
            = max (sig_digs bigger) (sig_digs smaller)"
    by (simp add: max_def)
  show ?thesis
    using le(1) by (simp add: add_aligned_def Let_def assms(6) sh mx)
qed

lemma add_finish_power:
  "power10 a = power10 b \<Longrightarrow> add_finish r0 a sd = add_finish r0 b sd"
  by (rule ext) (simp add: add_finish_def Let_def split: prod.splits cong: if_cong)

lemma add_aligned_commute:
  assumes "digits r0 = replicate (precision r0) 0"
    and "well_formed a" and "well_formed b"
    and "precision a = precision r0" and "precision b = precision r0"
    and "power10 a = power10 b"
  shows "add_aligned r0 a b = add_aligned r0 b a"
proof -
  let ?sd = "max (sig_digs a) (sig_digs b)"
  have len: "length (digits a) = precision r0" "length (digits b) = precision r0"
    using assms(2-5) by (simp_all add: well_formed_def)
  have "add_loop 0 ?sd (int ?sd) (digits b) (digits a) 0 1 0
        = add_loop 0 ?sd (int ?sd) (digits a) (digits b) 0 1 0"
  proof (rule add_loop_rel)
    show "\<forall>k<length (digits b).
            (int k < int ?sd - 0 \<longrightarrow> digits b ! k + digits a ! k = digits a ! k + digits b ! k)
            \<and> (int ?sd - 0 \<le> int k \<longrightarrow> digits b ! k = digits a ! k)"
      using zero_tail_nth [OF assms(2)] zero_tail_nth [OF assms(3)] assms(4,5) len by auto
  qed (use len in auto)
  then show ?thesis
    using add_aligned_same_power [OF assms(1,2,3,4,5,6)]
      add_aligned_same_power [OF assms(1,3,2,5,4) assms(6) [symmetric]]
      add_finish_power [OF assms(6)]
    by (simp add: max.commute)
qed


lemma shift_loop_frame:
  assumes "0 \<le> difference" and "startdigit < int (length rds)"
    and "startdigit - difference < int (length sds)"
  shows "\<exists>ds. shift_loop i t startdigit difference rds sds = Some ds
              \<and> length ds = length rds
              \<and> (\<forall>k < length rds. startdigit < int k \<longrightarrow> ds ! k = rds ! k)"
  using assms(2,3)
proof (induction "nat (t - i)" arbitrary: i startdigit rds)
  case 0
  then show ?case by (subst shift_loop.simps) simp
next
  case (Suc m)
  then have i: "i < t" by simp
  have m: "m = nat (t - (i + 1))" using Suc(2) by simp
  show ?case
  proof (cases "startdigit - difference \<ge> 0")
    case True
    let ?v = "sds ! nat (startdigit - difference)" and ?k = "nat startdigit"
    have sd: "0 \<le> startdigit" using True assms(1) by simp
    have r: "rd sds (startdigit - difference) = Some ?v"
      using True Suc(4) by (simp add: rd_def)
    have w: "wr rds startdigit ?v = Some (rds[?k := ?v])"
      using sd Suc(3) by (simp add: wr_def)
    obtain ds where ds: "shift_loop (i + 1) t (startdigit - 1) difference (rds[?k := ?v]) sds = Some ds"
        "length ds = length (rds[?k := ?v])"
        "\<forall>k < length (rds[?k := ?v]). startdigit - 1 < int k \<longrightarrow> ds ! k = rds[?k := ?v] ! k"
      using Suc(1) [OF m, of "startdigit - 1" "rds[?k := ?v]"] Suc(3,4) by auto
    have "\<forall>k < length rds. startdigit < int k \<longrightarrow> ds ! k = rds ! k"
      using ds(3) sd by auto
    then show ?thesis
      using ds(1,2) True by (subst shift_loop.simps) (simp add: i r w)
  next
    case False
    obtain ds where ds: "shift_loop (i + 1) t (startdigit - 1) difference rds sds = Some ds"
        "length ds = length rds"
        "\<forall>k < length rds. startdigit - 1 < int k \<longrightarrow> ds ! k = rds ! k"
      using Suc(1) [OF m, of "startdigit - 1" rds] Suc(3,4) by auto
    then show ?thesis
      using False by (subst shift_loop.simps) (simp add: i)
  qed
qed

lemma carry_loop_frame:
  assumes "sdc + 1 < int (length rds)"
  shows "\<exists>ds. carry_loop i t sdc rds = Some ds \<and> length ds = length rds
              \<and> (\<forall>k < length rds. sdc + 1 < int k \<longrightarrow> ds ! k = rds ! k)"
  using assms
proof (induction "nat (t - i)" arbitrary: i sdc rds)
  case 0
  then show ?case by (subst carry_loop.simps) simp
next
  case (Suc m)
  then have i: "i < t" by simp
  have m: "m = nat (t - (i + 1))" using Suc(2) by simp
  define rds1 where "rds1 = (if sdc \<ge> 0 then rds[nat (sdc + 1) := rds ! nat sdc]
                             else if sdc + 1 \<ge> 0 then rds[nat (sdc + 1) := 0] else rds)"
  have st: "(if sdc \<ge> 0 then do { v \<leftarrow> rd rds sdc; wr rds (sdc + 1) v }
             else if sdc + 1 \<ge> 0 then wr rds (sdc + 1) 0 else Some rds) = Some rds1"
    using Suc(3) by (auto simp: rds1_def rd_def wr_def)
  have l: "length rds1 = length rds" by (simp add: rds1_def)
  obtain ds where ds: "carry_loop (i + 1) t (sdc - 1) rds1 = Some ds" "length ds = length rds1"
      "\<forall>k < length rds1. sdc - 1 + 1 < int k \<longrightarrow> ds ! k = rds1 ! k"
    using Suc(1) [OF m, of "sdc - 1" rds1] Suc(3) l by auto
  have "\<forall>k < length rds. sdc + 1 < int k \<longrightarrow> ds ! k = rds ! k"
    using ds(3) l by (auto simp: rds1_def)
  then show ?case
    using ds(1,2) l by (subst carry_loop.simps) (simp add: i st)
qed

lemma add_loop_frame:
  assumes "0 \<le> i" and "i \<le> int n" and "int n \<le> sdc" and "sdc \<le> int (length rds)"
    and "length bds = length rds"
    and "0 \<le> zc" and "zc \<le> i" and "tz = 1 \<longrightarrow> zc = i"
    and "\<forall>k<length rds. sdc - zc \<le> int k \<and> int k < sdc \<longrightarrow> rds ! k = 0"
  shows "\<exists>ds c' zc'. add_loop i n sdc rds bds c tz zc = Some (ds, c', zc')
           \<and> length ds = length rds
           \<and> (\<forall>k<length rds. sdc \<le> int k \<longrightarrow> ds ! k = rds ! k)
           \<and> 0 \<le> zc' \<and> zc' \<le> int n
           \<and> (\<forall>k<length rds. sdc - zc' \<le> int k \<and> int k < sdc \<longrightarrow> ds ! k = 0)"
  using assms(1,2,4-9)
proof (induction "nat (int n - i)" arbitrary: i rds c tz zc)
  case 0
  then have "i = int n" by simp
  then show ?case using 0 by (subst add_loop.simps) auto
next
  case (Suc m)
  then have i: "i < int n" by simp
  have m: "m = nat (int n - (i + 1))" using Suc(2) by simp
  let ?j = "sdc - i - 1"
  let ?k = "nat ?j"
  have j: "0 \<le> ?j" "?j < int (length rds)" "?j < sdc" using i assms(3) Suc(3,5) by auto
  have r: "rd rds ?j = Some (rds ! ?k)" "rd bds ?j = Some (bds ! ?k)"
    using j Suc(6) by (auto simp: rd_def)
  define v where "v = rds ! ?k + (bds ! ?k + c)"
  define v2 where "v2 = (if v \<ge> 10 then v - 10 else v)"
  define c2 :: int where "c2 = (if v \<ge> 10 then 1 else 0)"
  define zc2 where "zc2 = (if tz = 1 \<and> v2 = 0 then zc + 1 else zc)"
  define tz2 where "tz2 = (if tz = 1 \<and> v2 \<noteq> 0 then 0 else tz)"
  have w: "wr rds ?j v2 = Some (rds[?k := v2])" using j by (simp add: wr_def)
  have step: "add_loop i n sdc rds bds c tz zc
              = add_loop (i + 1) n sdc (rds[?k := v2]) bds c2 tz2 zc2"
    using w unfolding v2_def c2_def zc2_def tz2_def v_def
    by (subst add_loop.simps) (simp add: i r Let_def)
  have z: "\<forall>k<length (rds[?k := v2]). sdc - zc2 \<le> int k \<and> int k < sdc
             \<longrightarrow> rds[?k := v2] ! k = 0"
  proof (intro allI impI)
    fix k assume k: "k < length (rds[?k := v2])" "sdc - zc2 \<le> int k \<and> int k < sdc"
    show "rds[?k := v2] ! k = 0"
    proof (cases "tz = 1 \<and> v2 = 0")
      case True
      then have "zc = i" "zc2 = i + 1" using Suc(9) by (auto simp: zc2_def)
      then show ?thesis using k True Suc(10) j
        by (cases "k = ?k") auto
    next
      case False
      then have "zc2 = zc" by (simp add: zc2_def)
      then have "k \<noteq> ?k" "sdc - zc \<le> int k" using k Suc(8) j by auto
      then show ?thesis using k Suc(10) by auto
    qed
  qed
  have "\<exists>ds c' zc'. add_loop (i + 1) n sdc (rds[?k := v2]) bds c2 tz2 zc2 = Some (ds, c', zc')
           \<and> length ds = length (rds[?k := v2])
           \<and> (\<forall>k<length (rds[?k := v2]). sdc \<le> int k \<longrightarrow> ds ! k = rds[?k := v2] ! k)
           \<and> 0 \<le> zc' \<and> zc' \<le> int n
           \<and> (\<forall>k<length (rds[?k := v2]). sdc - zc' \<le> int k \<and> int k < sdc \<longrightarrow> ds ! k = 0)"
  proof (rule Suc(1) [OF m])
    show "0 \<le> i + 1" "i + 1 \<le> int n" using Suc(3) i by auto
    show "sdc \<le> int (length (rds[?k := v2]))" using Suc(5) by simp
    show "length bds = length (rds[?k := v2])" using Suc(6) by simp
    show "0 \<le> zc2" "zc2 \<le> i + 1" using Suc(7,8) by (auto simp: zc2_def)
    show "tz2 = 1 \<longrightarrow> zc2 = i + 1" using Suc(9) by (auto simp: zc2_def tz2_def)
    show "\<forall>k<length (rds[?k := v2]). sdc - zc2 \<le> int k \<and> int k < sdc
             \<longrightarrow> rds[?k := v2] ! k = 0" using z .
  qed
  then obtain ds c' zc' where
    ds: "add_loop (i + 1) n sdc (rds[?k := v2]) bds c2 tz2 zc2 = Some (ds, c', zc')"
      "length ds = length rds"
      "\<forall>k<length rds. sdc \<le> int k \<longrightarrow> ds ! k = rds[?k := v2] ! k"
      "0 \<le> zc'" "zc' \<le> int n"
      "\<forall>k<length rds. sdc - zc' \<le> int k \<and> int k < sdc \<longrightarrow> ds ! k = 0"
    by auto
  have "\<forall>k<length rds. sdc \<le> int k \<longrightarrow> ds ! k = rds ! k"
    using ds(3) j by auto
  then show ?case using ds step by auto
qed

lemma zero_tail_iff:
  "zero_tail b \<longleftrightarrow> (\<forall>k < length (digits b). sig_digs b \<le> k \<longrightarrow> digits b ! k = 0)"
proof
  assume z: "zero_tail b"
  show "\<forall>k < length (digits b). sig_digs b \<le> k \<longrightarrow> digits b ! k = 0"
  proof (intro allI impI)
    fix k assume k: "k < length (digits b)" "sig_digs b \<le> k"
    then have "drop (sig_digs b) (digits b) ! (k - sig_digs b) = digits b ! k" by simp
    moreover have "k - sig_digs b < length (drop (sig_digs b) (digits b))" using k by simp
    ultimately have "digits b ! k \<in> set (drop (sig_digs b) (digits b))" by (metis nth_mem)
    then show "digits b ! k = 0" using z by (simp add: zero_tail_def)
  qed
next
  assume a: "\<forall>k < length (digits b). sig_digs b \<le> k \<longrightarrow> digits b ! k = 0"
  show "zero_tail b"
    unfolding zero_tail_def
  proof
    fix d assume "d \<in> set (drop (sig_digs b) (digits b))"
    then obtain j where j: "j < length (drop (sig_digs b) (digits b))"
        "drop (sig_digs b) (digits b) ! j = d"
      by (auto simp: in_set_conv_nth)
    then have "digits b ! (sig_digs b + j) = d" "sig_digs b + j < length (digits b)" by auto
    then show "d = 0" using a by auto
  qed
qed

lemma add_finish_zero_tail:
  assumes "length ds2 = precision r0" and "sd \<le> precision r0" and "0 < precision r0"
    and "0 \<le> zc" and "zc \<le> int sd"
    and "\<forall>k < length ds2. int sd - zc \<le> int k \<longrightarrow> ds2 ! k = 0"
  shows "\<exists>r'. add_finish r0 bigger sd (ds2, carry, zc) = Some (1, r') \<and> zero_tail r'
              \<and> precision r' = precision r0 \<and> length (digits r') = precision r0"
proof (cases "carry > 0")
  case False
  let ?r = "r0\<lparr>power10 := power10 bigger, sig_digs := sd - nat zc, digits := ds2\<rparr>"
  have "zero_tail ?r" using assms(4,5,6) by (auto simp: zero_tail_iff)
  then show ?thesis using False assms(1) by (simp add: add_finish_def)
next
  case True
  let ?p = "precision r0"
  define sd2 where "sd2 = sd - nat zc"
  define t2 where "t2 = (if int sd2 = int ?p then int sd2 - 1 else int sd2)"
  have sd2: "sd2 \<le> ?p" "int sd2 = int sd - zc" using assms(2,4,5) by (auto simp: sd2_def)
  have t2: "t2 < int ?p" "t2 \<le> int sd2" using sd2(1) assms(3) by (auto simp: t2_def)
  obtain ds3 where ds3: "carry_loop 0 t2 (t2 - 1) ds2 = Some ds3" "length ds3 = length ds2"
      "\<forall>k < length ds2. t2 - 1 + 1 < int k \<longrightarrow> ds3 ! k = ds2 ! k"
    using carry_loop_frame [of "t2 - 1" ds2 0 t2] t2 assms(1) by auto
  have w: "wr ds3 0 carry = Some (ds3[0 := carry])"
    using ds3(2) assms(1,3) by (simp add: wr_def)
  let ?r = "r0\<lparr>power10 := power10 bigger + 1, sig_digs := sd2 + 1, digits := ds3[0 := carry]\<rparr>"
  have "zero_tail ?r"
    unfolding zero_tail_iff
  proof (intro allI impI)
    fix k assume k: "k < length (digits ?r)" "sig_digs ?r \<le> k"
    then have "ds3 ! k = ds2 ! k" "int sd - zc \<le> int k" "k \<noteq> 0" "k < length ds2"
      using ds3(2,3) t2(2) sd2(2) by auto
    then show "digits ?r ! k = 0" using assms(6) by simp
  qed
  moreover have "add_finish r0 bigger sd (ds2, carry, zc)
      = carry_loop 0 t2 (t2 - 1) ds2
        \<bind> (\<lambda>ds3. wr ds3 0 carry
               \<bind> (\<lambda>ds4. Some (1, r0\<lparr>power10 := power10 bigger + 1, sig_digs := sd2 + 1,
                                           digits := ds4\<rparr>)))"
    using True unfolding add_finish_def sd2_def t2_def Let_def by simp
  ultimately show ?thesis
    using ds3(1,2) w assms(1) by simp
qed

lemma add_aligned_zero_tail:
  assumes "digits r0 = replicate (precision r0) 0"
    and "well_formed bigger" and "well_formed smaller"
    and "precision bigger = precision r0" and "precision smaller = precision r0"
    and "0 \<le> power10 bigger - power10 smaller"
    and "power10 bigger - power10 smaller \<le> int (precision r0)"
    and "0 < precision r0"
  shows "\<exists>r'. add_aligned r0 bigger smaller = Some (1, r') \<and> zero_tail r'
              \<and> precision r' = precision r0 \<and> length (digits r') = precision r0"
proof -
  let ?p = "precision r0"
  define difference where "difference = power10 bigger - power10 smaller"
  define over where "over \<longleftrightarrow> int (sig_digs smaller) + difference > int ?p"
  define startdigit where "startdigit = (if over then int ?p - difference
                                          else int (sig_digs smaller) + difference)"
  define transfertotal where "transfertotal = (if over then startdigit else int (sig_digs smaller))"
  define sd where "sd = (if sig_digs bigger > nat startdigit then sig_digs bigger
                         else nat startdigit)"
  have len: "length (digits bigger) = ?p" "length (digits smaller) = ?p" "length (digits r0) = ?p"
    "sig_digs bigger \<le> ?p"
    using assms(1-5) by (simp_all add: well_formed_def)
  have s: "0 \<le> startdigit" "startdigit \<le> int ?p"
    using assms(6,7) by (auto simp: startdigit_def over_def difference_def)
  have sd: "sd \<le> ?p" "nat startdigit \<le> sd" using s len(4) by (auto simp: sd_def)
  obtain ds1 where ds1: "shift_loop 0 transfertotal (startdigit - 1) difference
                           (digits r0) (digits smaller) = Some ds1"
      "length ds1 = ?p"
      "\<forall>k < ?p. startdigit - 1 < int k \<longrightarrow> ds1 ! k = digits r0 ! k"
    using shift_loop_frame [of difference "startdigit - 1" "digits r0" "digits smaller" 0 transfertotal]
      s len assms(6) by (auto simp: difference_def)
  have z1: "\<forall>k < ?p. int sd \<le> int k \<longrightarrow> ds1 ! k = 0"
    using ds1(3) sd(2) assms(1) by auto
  obtain ds2 c' zc' where ds2: "add_loop 0 sd (int sd) ds1 (digits bigger) 0 1 0 = Some (ds2, c', zc')"
      "length ds2 = length ds1"
      "\<forall>k<length ds1. int sd \<le> int k \<longrightarrow> ds2 ! k = ds1 ! k"
      "0 \<le> zc'" "zc' \<le> int sd"
      "\<forall>k<length ds1. int sd - zc' \<le> int k \<and> int k < int sd \<longrightarrow> ds2 ! k = 0"
    using add_loop_frame [of 0 sd "int sd" ds1 "digits bigger" 0 1 0] sd(1) ds1(2) len(1)
    by auto
  have z2: "\<forall>k < length ds2. int sd - zc' \<le> int k \<longrightarrow> ds2 ! k = 0"
  proof (intro allI impI)
    fix k assume k: "k < length ds2" "int sd - zc' \<le> int k"
    show "ds2 ! k = 0"
    proof (cases "int k < int sd")
      case True
      then show ?thesis using k ds2(2,6) by auto
    next
      case False
      then show ?thesis using k ds2(2,3) ds1(2) z1 by auto
    qed
  qed
  obtain r' where "add_finish r0 bigger sd (ds2, c', zc') = Some (1, r')" "zero_tail r'"
      "precision r' = ?p" "length (digits r') = ?p"
    using add_finish_zero_tail [of ds2 r0 sd zc' bigger c'] ds2(2,4,5) ds1(2) sd(1) assms(8) z2
    by auto
  moreover have "add_aligned r0 bigger smaller
      = shift_loop 0 transfertotal (startdigit - 1) difference (digits r0) (digits smaller)
        \<bind> (\<lambda>ds1. add_loop 0 sd (int sd) ds1 (digits bigger) 0 1 0
                       \<bind> add_finish r0 bigger sd)"
    unfolding add_aligned_def sd_def transfertotal_def startdigit_def over_def difference_def
      Let_def
    by (rule refl)
  ultimately show ?thesis
    using ds1(1) ds2(1) by simp
qed

lemma bignum_add_zero_tail:
  assumes "well_formed r" and "well_formed a" and "well_formed b"
    and "precision a = precision r" and "precision b = precision r"
  shows "\<exists>r'. bignum_add r a b = Some (1, r') \<and> zero_tail r' \<and> precision r' = precision r
              \<and> length (digits r') = precision r"
proof -
  obtain r0 where r0: "bignum_reset r = Some r0" "digits r0 = replicate (precision r) 0"
      "sig_digs r0 = 0" "precision r0 = precision r"
    using bignum_reset_wf [OF assms(1)] by blast
  have z0: "zero_tail r0" "length (digits r0) = precision r"
    using r0 by (simp_all add: zero_tail_def)
  have sa: "sig_digs a > 0 \<Longrightarrow> bignum_set r0 a = Some a"
    using bignum_set_copy [of r0 a] r0 assms(2,4) by simp
  have sb: "sig_digs b > 0 \<Longrightarrow> bignum_set r0 b = Some b"
    using bignum_set_copy [of r0 b] r0 assms(3,5) by simp
  have wa: "zero_tail a" "length (digits a) = precision r"
    and wb: "zero_tail b" "length (digits b) = precision r"
    using assms(2-5) by (simp_all add: well_formed_def)
  have p: "sig_digs a > 0 \<Longrightarrow> 0 < precision r0"
    using assms(2,4) r0(4) by (simp add: well_formed_def)
  have al: "\<exists>r'. add_aligned r0 x y = Some (1, r') \<and> zero_tail r'
              \<and> precision r' = precision r \<and> length (digits r') = precision r"
    if "well_formed x" "well_formed y" "precision x = precision r" "precision y = precision r"
      "0 \<le> power10 x - power10 y" "power10 x - power10 y \<le> int (precision r)"
      "sig_digs a > 0" for x y
    using add_aligned_zero_tail [of r0 x y] that r0 p by simp
  show ?thesis
    using sa sb wa wb z0 r0 al [of a b] al [of b a] assms
    by (auto simp: bignum_add_def)
qed

text \<open>
  C6.  For a result and two operands that are well formed and of one precision,
  \<open>bignum_add\<close> with the operands in either order returns success with the same
  bignum: the same power, number of significant digits and digit array.  Being well
  formed includes that the positions of the digit array from \<open>sig_digs\<close> on hold
  zero; for operands with other entries there the two orders can differ.
\<close>

theorem add_commutes:
  assumes "well_formed r" and "well_formed a" and "well_formed b"
    and "precision a = precision r" and "precision b = precision r"
  shows "bignum_add r a b = bignum_add r b a \<and> (\<exists>r'. bignum_add r a b = Some (1, r'))"
proof -
  obtain r0 where r0: "bignum_reset r = Some r0" "digits r0 = replicate (precision r) 0"
      "sig_digs r0 = 0" "precision r0 = precision r"
    using bignum_reset_wf [OF assms(1)] by blast
  have eq: "power10 a = power10 b \<Longrightarrow> add_aligned r0 a b = add_aligned r0 b a"
    using add_aligned_commute [of r0 a b] r0 assms by simp
  have "bignum_add r a b = bignum_add r b a"
    using eq by (auto simp: bignum_add_def r0)
  then show ?thesis
    using bignum_add_zero_tail [OF assms] by blast
qed

theorem add_commutes_witness:
  "well_formed (bignum_init 4)
   \<and> well_formed \<lparr>power10 = 1, sig_digs = 3, digits = [1, 2, 5, 0], precision = 4\<rparr>
   \<and> well_formed \<lparr>power10 = 1, sig_digs = 3, digits = [3, 1, 4, 0], precision = 4\<rparr>
   \<and> bignum_add (bignum_init 4)
        \<lparr>power10 = 1, sig_digs = 3, digits = [1, 2, 5, 0], precision = 4\<rparr>
        \<lparr>power10 = 1, sig_digs = 3, digits = [3, 1, 4, 0], precision = 4\<rparr>
      = Some (1, \<lparr>power10 = 1, sig_digs = 3, digits = [4, 3, 9, 0], precision = 4\<rparr>)
   \<and> bignum_add (bignum_init 4)
        \<lparr>power10 = 1, sig_digs = 3, digits = [3, 1, 4, 0], precision = 4\<rparr>
        \<lparr>power10 = 1, sig_digs = 3, digits = [1, 2, 5, 0], precision = 4\<rparr>
      = Some (1, \<lparr>power10 = 1, sig_digs = 3, digits = [4, 3, 9, 0], precision = 4\<rparr>)"
proof -
  have e: "bignum_add (bignum_init 4)
        \<lparr>power10 = 1, sig_digs = 3, digits = [1, 2, 5, 0], precision = 4\<rparr>
        \<lparr>power10 = 1, sig_digs = 3, digits = [3, 1, 4, 0], precision = 4\<rparr>
      = Some (1, \<lparr>power10 = 1, sig_digs = 3, digits = [4, 3, 9, 0], precision = 4\<rparr>)"
    by code_simp
  show ?thesis
    using e add_commutes [of "bignum_init 4"
        "\<lparr>power10 = 1, sig_digs = 3, digits = [1, 2, 5, 0], precision = 4\<rparr>"
        "\<lparr>power10 = 1, sig_digs = 3, digits = [3, 1, 4, 0], precision = 4\<rparr>"]
    by (simp add: well_formed_def zero_tail_def bignum_init_def)
qed

text \<open>
  Without the zero tail the two orders differ.  \<open>bignum_set\<close> of \<open>5\<close> into a bignum
  that holds \<open>12\<close> leaves \<open>5, 2, 0\<close> with one significant digit, a bignum of value
  \<open>5\<close> whose array keeps a stale \<open>2\<close>.  Added to \<open>1.1\<close>, it gives \<open>6.3\<close> as the left
  operand, where \<open>add_loop\<close> reads the stale digit of the operand it treats as the
  bigger one, and \<open>6.1\<close> as the right operand.
\<close>

theorem add_commutes_counterexample:
  "bignum_set \<lparr>power10 = 1, sig_digs = 2, digits = [1, 2, 0], precision = 3\<rparr>
        \<lparr>power10 = 0, sig_digs = 1, digits = [5, 0, 0], precision = 3\<rparr>
      = Some \<lparr>power10 = 0, sig_digs = 1, digits = [5, 2, 0], precision = 3\<rparr>
   \<and> bignum_add (bignum_init 3)
        \<lparr>power10 = 0, sig_digs = 1, digits = [5, 2, 0], precision = 3\<rparr>
        \<lparr>power10 = 0, sig_digs = 2, digits = [1, 1, 0], precision = 3\<rparr>
      = Some (1, \<lparr>power10 = 0, sig_digs = 2, digits = [6, 3, 0], precision = 3\<rparr>)
   \<and> bignum_add (bignum_init 3)
        \<lparr>power10 = 0, sig_digs = 2, digits = [1, 1, 0], precision = 3\<rparr>
        \<lparr>power10 = 0, sig_digs = 1, digits = [5, 2, 0], precision = 3\<rparr>
      = Some (1, \<lparr>power10 = 0, sig_digs = 2, digits = [6, 1, 0], precision = 3\<rparr>)
   \<and> bignum_add (bignum_init 3)
        \<lparr>power10 = 0, sig_digs = 1, digits = [5, 2, 0], precision = 3\<rparr>
        \<lparr>power10 = 0, sig_digs = 2, digits = [1, 1, 0], precision = 3\<rparr>
      \<noteq> bignum_add (bignum_init 3)
        \<lparr>power10 = 0, sig_digs = 2, digits = [1, 1, 0], precision = 3\<rparr>
        \<lparr>power10 = 0, sig_digs = 1, digits = [5, 2, 0], precision = 3\<rparr>"
  by code_simp

section \<open>The unused positions of the digit array\<close>

lemma copy_loop_frame:
  assumes "copy_loop i n tempstart rds tw = Some ds" and "0 \<le> i"
  shows "length ds = length rds \<and> (\<forall>k<length rds. int n \<le> int k \<longrightarrow> ds ! k = rds ! k)"
  using assms
proof (induction "nat (int n - i)" arbitrary: i rds)
  case 0
  then show ?case by (subst (asm) copy_loop.simps) simp
next
  case (Suc m)
  then have i: "i < int n" by simp
  have m: "m = nat (int n - (i + 1))" using Suc(2) by simp
  from Suc(3) obtain v rds1 where
    s: "rd tw (tempstart + i) = Some v" "wr rds i v = Some rds1"
       "copy_loop (i + 1) n tempstart rds1 tw = Some ds"
    by (subst (asm) copy_loop.simps) (auto simp: i split: bind_splits)
  have r1: "rds1 = rds[nat i := v]" using s(2) by (auto simp: wr_def split: if_splits)
  have "length ds = length rds1 \<and> (\<forall>k<length rds1. int n \<le> int k \<longrightarrow> ds ! k = rds1 ! k)"
    using Suc(1) [OF m s(3)] Suc(4) by simp
  then show ?case using r1 i Suc(4) by auto
qed

lemma store_loop_frame:
  assumes "store_loop t n counter ds tw = Some ds'" and "0 \<le> t"
  shows "length ds' = length ds \<and> (\<forall>k<length ds. n \<le> int k \<longrightarrow> ds' ! k = ds ! k)"
  using assms
proof (induction "nat (n - t)" arbitrary: t ds)
  case 0
  then show ?case by (subst (asm) store_loop.simps) simp
next
  case (Suc m)
  then have t: "t < n" by simp
  have m: "m = nat (n - (t + 1))" using Suc(2) by simp
  from Suc(3) obtain v ds1 where
    s: "rd tw (counter - t - 1) = Some v" "wr ds t v = Some ds1"
       "store_loop (t + 1) n counter ds1 tw = Some ds'"
    by (subst (asm) store_loop.simps) (auto simp: t split: bind_splits)
  have r1: "ds1 = ds[nat t := v]" using s(2) by (auto simp: wr_def split: if_splits)
  have "length ds' = length ds1 \<and> (\<forall>k<length ds1. n \<le> int k \<longrightarrow> ds' ! k = ds1 ! k)"
    using Suc(1) [OF m s(3)] Suc(4) by simp
  then show ?case using r1 t Suc(4) by auto
qed

lemma set_loop_frame:
  assumes "set_loop i n newd oldd = Some ds" and "0 \<le> i"
  shows "length ds = length newd \<and> (\<forall>k<length newd. int n \<le> int k \<longrightarrow> ds ! k = newd ! k)"
  using assms
proof (induction "nat (int n - i)" arbitrary: i newd)
  case 0
  then show ?case by (subst (asm) set_loop.simps) simp
next
  case (Suc m)
  then have i: "i < int n" by simp
  have m: "m = nat (int n - (i + 1))" using Suc(2) by simp
  from Suc(3) obtain v nd1 where
    s: "rd oldd i = Some v" "wr newd i v = Some nd1"
       "set_loop (i + 1) n nd1 oldd = Some ds"
    by (subst (asm) set_loop.simps) (auto simp: i split: bind_splits)
  have r1: "nd1 = newd[nat i := v]" using s(2) by (auto simp: wr_def split: if_splits)
  have "length ds = length nd1 \<and> (\<forall>k<length nd1. int n \<le> int k \<longrightarrow> ds ! k = nd1 ! k)"
    using Suc(1) [OF m s(3)] Suc(4) by simp
  then show ?case using r1 i Suc(4) by auto
qed

lemma div_loop_frame:
  assumes "div_loop s ni nz prec nsig dds dsig tw rds = Some (s', ds)" and "0 \<le> s"
  shows "length ds = length rds \<and> s \<le> s'
         \<and> (\<forall>k<length rds. s' \<le> int k \<longrightarrow> ds ! k = rds ! k)"
  using assms
proof (induction "nat (int prec - s)" arbitrary: s ni nz tw rds)
  case 0
  then show ?case by (subst (asm) div_loop.simps) auto
next
  case (Suc m)
  then have s: "s < int prec" by simp
  have m: "m = nat (int prec - (s + 1))" using Suc(2) by simp
  show ?case
  proof (cases "nz = 1")
    case False
    then show ?thesis using Suc(3) by (subst (asm) div_loop.simps) auto
  next
    case True
    from Suc(3) obtain cd tw1 nz1 rds1 where
      st: "wr rds s cd = Some rds1"
          "div_loop (s + 1) (ni + 1) nz1 prec nsig dds dsig tw1 rds1 = Some (s', ds)"
      by (subst (asm) div_loop.simps) (auto simp: s True split: bind_splits if_splits)
    have r1: "rds1 = rds[nat s := cd]" using st(1) by (auto simp: wr_def split: if_splits)
    have "length ds = length rds1 \<and> s + 1 \<le> s'
          \<and> (\<forall>k<length rds1. s' \<le> int k \<longrightarrow> ds ! k = rds1 ! k)"
      using Suc(1) [OF m st(2)] Suc(4) by simp
    then show ?thesis using r1 Suc(4) by auto
  qed
qed

lemma zero_loop_zeros:
  assumes "zero_loop i xs zc = Some zc'"
  shows "zc \<le> zc' \<and> zc' - zc \<le> i + 1
         \<and> (\<forall>k<length xs. i - (zc' - zc) < int k \<and> int k \<le> i \<longrightarrow> xs ! k = 0)"
  using assms
proof (induction "nat (i + 1)" arbitrary: i zc)
  case 0
  then have "rd xs i = None" by (simp add: rd_def)
  then show ?case using 0(2) by (subst (asm) zero_loop.simps) simp
next
  case (Suc m)
  have m: "m = nat (i - 1 + 1)" using Suc(2) by simp
  from Suc(3) obtain v where v: "rd xs i = Some v"
    by (subst (asm) zero_loop.simps) (auto split: bind_splits)
  then have vi: "v = xs ! nat i" "0 \<le> i" "i < int (length xs)"
    by (auto simp: rd_def split: if_splits)
  show ?case
  proof (cases "v = 0")
    case False
    then have "zc' = zc" using Suc(3) v by (subst (asm) zero_loop.simps) simp
    then show ?thesis using vi by auto
  next
    case True
    then have "zero_loop (i - 1) xs (zc + 1) = Some zc'"
      using Suc(3) v by (subst (asm) zero_loop.simps) simp
    from Suc(1) [OF m this]
    have ih: "zc + 1 \<le> zc'" "zc' - (zc + 1) \<le> i - 1 + 1"
      "\<forall>k<length xs. i - 1 - (zc' - (zc + 1)) < int k \<and> int k \<le> i - 1 \<longrightarrow> xs ! k = 0"
      by auto
    have "\<forall>k<length xs. i - (zc' - zc) < int k \<and> int k \<le> i \<longrightarrow> xs ! k = 0"
    proof (intro allI impI)
      fix k assume k: "k < length xs" "i - (zc' - zc) < int k \<and> int k \<le> i"
      show "xs ! k = 0"
      proof (cases "int k = i")
        case True
        then have "k = nat i" by simp
        then show ?thesis using vi \<open>v = 0\<close> by simp
      next
        case False
        then show ?thesis using k ih(3) by auto
      qed
    qed
    then show ?thesis using ih by auto
  qed
qed

lemma bignum_set_zero_tail:
  assumes "bignum_set r0 a = Some r'" and "sig_digs r0 = 0" and "\<forall>d \<in> set (digits r0). d = 0"
  shows "zero_tail r' \<and> precision r' = precision r0 \<and> length (digits r') = length (digits r0)"
proof (cases "sig_digs a > 0")
  case False
  then have "r' = r0" using assms(1,2) by (simp add: bignum_set_def bignum_reset_def)
  then show ?thesis using assms(3) by (auto simp: zero_tail_def dest: in_set_dropD)
next
  case True
  define sd where "sd = (if sig_digs a > precision r0 then precision r0 else sig_digs a)"
  from assms(1) True obtain ds where
    ds: "set_loop 0 sd (digits r0) (digits a) = Some ds"
        "r' = r0\<lparr>power10 := power10 a, sig_digs := sd, digits := ds\<rparr>"
    by (auto simp: bignum_set_def Let_def sd_def split: bind_splits)
  have "length ds = length (digits r0)"
    "\<forall>k<length (digits r0). int sd \<le> int k \<longrightarrow> ds ! k = digits r0 ! k"
    using set_loop_frame [OF ds(1)] by auto
  then show ?thesis using ds(2) assms(3) by (auto simp: zero_tail_iff)
qed

lemma bignum_set_int_zero_tail:
  assumes "bignum_set_int ok r0 n = Some (s, r')" and "sig_digs r0 = 0"
    and "\<forall>d \<in> set (digits r0). d = 0"
  shows "zero_tail r' \<and> precision r' = precision r0 \<and> length (digits r') = length (digits r0)"
proof -
  have z0: "zero_tail r0" using assms(3) by (auto simp: zero_tail_def dest: in_set_dropD)
  show ?thesis
  proof (cases "n > 0 \<and> ok")
    case False
    then have "r' = r0" using assms(1,2)
      by (auto simp: bignum_set_int_def bignum_reset_def split: if_splits)
    then show ?thesis using z0 by simp
  next
    case True
    from assms(1) True obtain counter tw lz ds where
      st: "store_loop 0 (counter - lz) counter (digits r0) tw = Some ds"
          "r' = r0\<lparr>power10 := counter - 1, digits := ds, sig_digs := nat (counter - lz)\<rparr>"
      by (auto simp: bignum_set_int_def split: bind_splits prod.splits)
    have "length ds = length (digits r0)"
      "\<forall>k<length (digits r0). counter - lz \<le> int k \<longrightarrow> ds ! k = digits r0 ! k"
      using store_loop_frame [OF st(1)] by auto
    then show ?thesis using st(2) assms(3) by (auto simp: zero_tail_iff)
  qed
qed

lemma bignum_mult_zero_tail:
  assumes "bignum_mult ok r a b = Some (s, r')" and "well_formed r"
  shows "zero_tail r' \<and> precision r' = precision r \<and> length (digits r') = precision r"
proof -
  obtain r0 where r0: "bignum_reset r = Some r0" "digits r0 = replicate (precision r) 0"
      "sig_digs r0 = 0" "precision r0 = precision r"
    using bignum_reset_wf [OF assms(2)] by blast
  have z0: "zero_tail r0" using r0 by (simp add: zero_tail_def)
  show ?thesis
  proof (cases "sig_digs a = 0 \<or> sig_digs b = 0 \<or> \<not> ok")
    case True
    then have "r' = r0" using assms(1) r0(1) by (auto simp: bignum_mult_def split: if_splits)
    then show ?thesis using z0 r0 by simp
  next
    case False
    from assms(1) False r0(1) obtain pw sd2 ts tw ds where
      st: "copy_loop 0 sd2 ts (digits r0) tw = Some ds"
          "r' = r0\<lparr>power10 := pw, sig_digs := sd2, digits := ds\<rparr>"
      by (auto simp: bignum_mult_def Let_def split: bind_splits prod.splits)
    have "length ds = length (digits r0)"
      "\<forall>k<length (digits r0). int sd2 \<le> int k \<longrightarrow> ds ! k = digits r0 ! k"
      using copy_loop_frame [OF st(1)] by auto
    then show ?thesis using st(2) r0 by (auto simp: zero_tail_iff)
  qed
qed

lemma bignum_divide_zero_tail:
  assumes "bignum_divide ok r a b = Some (s, r')" and "well_formed r"
  shows "zero_tail r' \<and> precision r' = precision r \<and> length (digits r') = precision r"
proof -
  obtain r0 where r0: "bignum_reset r = Some r0" "digits r0 = replicate (precision r) 0"
      "sig_digs r0 = 0" "precision r0 = precision r"
    using bignum_reset_wf [OF assms(2)] by blast
  have z0: "zero_tail r0" using r0 by (simp add: zero_tail_def)
  show ?thesis
  proof (cases "sig_digs b = 0 \<or> sig_digs a = 0 \<or> \<not> ok")
    case True
    then have "r' = r0" using assms(1) r0(1) by (auto simp: bignum_divide_def split: if_splits)
    then show ?thesis using z0 r0 by simp
  next
    case False
    from assms(1) False r0(1) obtain pw ni tw sc ds zc where
      st: "div_loop 0 ni 1 (precision r0) (sig_digs a) (digits b) (sig_digs b) tw (digits r0)
           = Some (sc, ds)"
          "zero_loop (sc - 1) ds 0 = Some zc"
          "r' = r0\<lparr>power10 := pw, digits := ds, sig_digs := nat sc - nat zc\<rparr>"
      by (auto simp: bignum_divide_def Let_def split: bind_splits prod.splits)
    have f: "length ds = length (digits r0)" "0 \<le> sc"
      "\<forall>k<length (digits r0). sc \<le> int k \<longrightarrow> ds ! k = digits r0 ! k"
      using div_loop_frame [OF st(1)] by auto
    have z: "0 \<le> zc" "zc \<le> sc"
      "\<forall>k<length ds. sc - 1 - zc < int k \<and> int k \<le> sc - 1 \<longrightarrow> ds ! k = 0"
      using zero_loop_zeros [OF st(2)] by auto
    have "zero_tail r'"
      unfolding zero_tail_iff
    proof (intro allI impI)
      fix k assume k: "k < length (digits r')" "sig_digs r' \<le> k"
      then have k': "k < length ds" "sc - zc \<le> int k" using st(3) f(2) z(1,2) by auto
      show "digits r' ! k = 0"
      proof (cases "sc \<le> int k")
        case True
        then show ?thesis using f k' r0(2) st(3) by simp
      next
        case False
        then show ?thesis using z(3) k' st(3) by simp
      qed
    qed
    then show ?thesis using st(3) f(1) r0 by simp
  qed
qed

lemma set_int_init_well_formed:
  assumes "bignum_set_int ok (bignum_init p) n = Some (1, t)"
  shows "well_formed t \<and> precision t = p"
proof -
  have wi: "well_formed (bignum_init p)"
    by (simp add: well_formed_def zero_tail_def bignum_init_def)
  show ?thesis
  proof (cases "0 < n")
    case False
    then have "t = bignum_init p"
      using assms by (simp add: bignum_set_int_def bignum_reset_def bignum_init_def)
    then show ?thesis using wi by (simp add: bignum_init_def)
  next
    case True
    then have ok: ok using assms by (auto simp: bignum_set_int_def split: if_splits)
    have fit: "length (decimal_digits n) \<le> p"
    proof (rule ccontr)
      assume "\<not> length (decimal_digits n) \<le> p"
      then have "bignum_set_int True (bignum_init p) n = None"
        using bignum_set_int_overflow [of n "bignum_init p"] True by (simp add: bignum_init_def)
      then show False using assms ok by simp
    qed
    let ?s = "significant_digits n"
    have t: "t = (bignum_init p)\<lparr>power10 := int (length (decimal_digits n)) - 1,
                digits := ?s @ drop (length ?s) (digits (bignum_init p)),
                sig_digs := length ?s\<rparr>"
      using bignum_set_int_fits [of "bignum_init p" n] True fit assms ok
      by (simp add: bignum_init_def)
    have ls: "length ?s \<le> length (decimal_digits n)"
      by (simp add: significant_digits_def decimal_digits_def dropWhile_eq_drop)
    have rg: "\<forall>d \<in> set ?s. 0 \<le> d \<and> d \<le> 9"
      using dec_rev_digit [of _ n] by (auto simp: significant_digits_def dest: set_dropWhileD)
    show ?thesis
      using ls fit rg by (auto simp: t well_formed_def zero_tail_def bignum_init_def)
  qed
qed

lemma reset_well_formed:
  assumes "well_formed r"
  shows "\<exists>r0. bignum_reset r = Some r0 \<and> well_formed r0 \<and> sig_digs r0 = 0
              \<and> (\<forall>d \<in> set (digits r0). d = 0) \<and> precision r0 = precision r
              \<and> digits r0 = replicate (sig_digs r) 0 @ drop (sig_digs r) (digits r)"
proof -
  obtain r0 where r0: "bignum_reset r = Some r0" "digits r0 = replicate (precision r) 0"
      "sig_digs r0 = 0" "precision r0 = precision r"
    using bignum_reset_wf [OF assms] by blast
  have "replicate (sig_digs r) 0 @ drop (sig_digs r) (digits r) = replicate (precision r) 0"
    using assms zero_tail_drop [of r] by (simp add: well_formed_def flip: replicate_add)
  then show ?thesis
    using r0 by (simp add: well_formed_def zero_tail_def)
qed

lemma set_int_temp:
  assumes "bignum_set_int ok (bignum_init p) n = Some (st, t)" and "st \<noteq> 0"
  shows "well_formed t \<and> precision t = p"
proof -
  have "st = 1"
    using assms by (auto simp: bignum_set_int_def split: if_splits bind_splits prod.splits)
  then show ?thesis using assms(1) set_int_init_well_formed by blast
qed

lemma bignum_add_int_zero_tail:
  assumes "bignum_add_int ok r a n = Some (s, r')"
    and "well_formed r" and "well_formed a" and "precision a = precision r"
  shows "zero_tail r'"
proof -
  obtain r0 where r0: "bignum_reset r = Some r0" "well_formed r0" "sig_digs r0 = 0"
      "\<forall>d \<in> set (digits r0). d = 0" "precision r0 = precision r"
    using reset_well_formed [OF assms(2)] by blast
  have z0: "zero_tail r0" using r0(2) by (simp add: well_formed_def)
  consider (a) "n = 0 \<and> sig_digs a > 0" | (b) "sig_digs a = 0 \<and> n > 0"
    | (c) "sig_digs a = 0 \<and> n = 0" | (d) "\<not> (n = 0 \<and> sig_digs a > 0)"
      "\<not> (sig_digs a = 0 \<and> n > 0)" "\<not> (sig_digs a = 0 \<and> n = 0)"
    by blast
  then show ?thesis
  proof cases
    case a
    then have "bignum_set r0 a = Some r'"
      using assms(1) r0(1) by (auto simp: bignum_add_int_def split: bind_splits)
    then show ?thesis using bignum_set_zero_tail r0(3,4) by blast
  next
    case b
    then have "bignum_set_int ok r0 n = Some (s, r')"
      using assms(1) r0(1) by (auto simp: bignum_add_int_def)
    then show ?thesis using bignum_set_int_zero_tail r0(3,4) by blast
  next
    case c
    then have "r' = r0" using assms(1) r0(1) by (auto simp: bignum_add_int_def)
    then show ?thesis using z0 by simp
  next
    case d
    from assms(1) d r0(1) obtain st t where
      t: "bignum_set_int ok (bignum_init (precision r0)) n = Some (st, t)"
         "if st = 0 then r' = r0 else bignum_add r0 a t = Some (s, r')"
      by (auto simp: bignum_add_int_def split: bind_splits if_splits)
    show ?thesis
    proof (cases "st = 0")
      case True
      then show ?thesis using t(2) z0 by simp
    next
      case False
      then have "well_formed t" "precision t = precision r0" using set_int_temp [OF t(1)] by auto
      then show ?thesis
        using bignum_add_zero_tail [of r0 a t] r0(2,5) assms(3,4) t(2) False by auto
    qed
  qed
qed

lemma bignum_mult_int_zero_tail:
  assumes "bignum_mult_int ok r a n = Some (s, r')" and "well_formed r"
  shows "zero_tail r'"
proof -
  obtain r0 where r0: "bignum_reset r = Some r0" "well_formed r0" "sig_digs r0 = 0"
      "\<forall>d \<in> set (digits r0). d = 0" "precision r0 = precision r"
    using reset_well_formed [OF assms(2)] by blast
  have z0: "zero_tail r0" using r0(2) by (simp add: well_formed_def)
  show ?thesis
  proof (cases "sig_digs a = 0 \<or> n = 0")
    case True
    then have "r' = r0" using assms(1) r0(1) by (auto simp: bignum_mult_int_def)
    then show ?thesis using z0 by simp
  next
    case False
    have "r' = r0 \<or> (\<exists>t. bignum_mult ok r0 a t = Some (s, r'))"
      using assms(1) False r0(1)
      by (auto simp: bignum_mult_int_def split: bind_splits if_splits)
    then show ?thesis
      using z0 bignum_mult_zero_tail [of ok r0 a _ s r'] r0(2) by auto
  qed
qed

lemma bignum_int_divide_zero_tail:
  assumes "bignum_int_divide ok r n b = Some (s, r')" and "well_formed r"
  shows "zero_tail r'"
proof -
  obtain r0 where r0: "bignum_reset r = Some r0" "well_formed r0" "sig_digs r0 = 0"
      "\<forall>d \<in> set (digits r0). d = 0" "precision r0 = precision r"
    using reset_well_formed [OF assms(2)] by blast
  have z0: "zero_tail r0" using r0(2) by (simp add: well_formed_def)
  show ?thesis
  proof (cases "sig_digs b = 0 \<or> n = 0")
    case True
    then have "r' = r0"
      using assms(1) r0(1) by (auto simp: bignum_int_divide_def split: if_splits)
    then show ?thesis using z0 by simp
  next
    case False
    have "r' = r0 \<or> (\<exists>t. bignum_divide ok r0 t b = Some (s, r'))"
      using assms(1) False r0(1)
      by (auto simp: bignum_int_divide_def split: bind_splits if_splits)
    then show ?thesis
      using z0 bignum_divide_zero_tail [of ok r0 _ b s r'] r0(2) by auto
  qed
qed

lemma bignum_divide_int_zero_tail:
  assumes "bignum_divide_int ok r a n = Some (s, r')" and "well_formed r"
  shows "zero_tail r'"
proof -
  obtain r0 where r0: "bignum_reset r = Some r0" "well_formed r0" "sig_digs r0 = 0"
      "\<forall>d \<in> set (digits r0). d = 0" "precision r0 = precision r"
    using reset_well_formed [OF assms(2)] by blast
  have z0: "zero_tail r0" using r0(2) by (simp add: well_formed_def)
  show ?thesis
  proof (cases "n = 0 \<or> sig_digs a = 0")
    case True
    then have "r' = r0"
      using assms(1) r0(1) by (auto simp: bignum_divide_int_def split: if_splits)
    then show ?thesis using z0 by simp
  next
    case False
    have "r' = r0 \<or> (\<exists>t. bignum_divide ok r0 a t = Some (s, r'))"
      using assms(1) False r0(1)
      by (auto simp: bignum_divide_int_def split: bind_splits if_splits)
    then show ?thesis
      using z0 bignum_divide_zero_tail [of ok r0 a _ s r'] r0(2) by auto
  qed
qed


lemma add_reads_past_sig_digs:
  "bignum_add (bignum_init 3)
     \<lparr>power10 = 0, sig_digs = 1, digits = [1, 5, 0], precision = 3\<rparr>
     \<lparr>power10 = 0, sig_digs = 2, digits = [1, 1, 0], precision = 3\<rparr>
   = Some (1, \<lparr>power10 = 0, sig_digs = 2, digits = [2, 6, 0], precision = 3\<rparr>)"
  by code_simp

text \<open>
  C10, as the code has it.  \<open>bignum_init\<close> gives an array of zeros.  For a well-formed
  result and well-formed operands of its precision: \<open>bignum_reset\<close> zeroes exactly the
  digits in use and leaves every position from \<open>sig_digs\<close> on zero; \<open>bignum_set\<close> and
  \<open>bignum_set_int\<close> into the reset result, \<open>bignum_add\<close> (which returns success),
  \<open>bignum_add_int\<close>, \<open>bignum_mult\<close>, \<open>bignum_mult_int\<close>, \<open>bignum_divide\<close>,
  \<open>bignum_int_divide\<close> and \<open>bignum_divide_int\<close>, whenever they return, leave every
  position of the result from \<open>sig_digs\<close> on zero.  The addition relies on it: when the
  first operand stores the one digit 1 and holds a stray 5 behind it, adding 1.1 gives
  2.6.
\<close>

theorem zero_tail_preserved:
  assumes "well_formed r" and "well_formed a" and "well_formed b"
    and "precision a = precision r" and "precision b = precision r"
  shows "zero_tail (bignum_init p)
    \<and> (\<exists>r0. bignum_reset r = Some r0 \<and> zero_tail r0
            \<and> digits r0 = replicate (sig_digs r) 0 @ drop (sig_digs r) (digits r)
            \<and> (\<forall>r'. bignum_set r0 a = Some r' \<longrightarrow> zero_tail r')
            \<and> (\<forall>s r'. bignum_set_int ok r0 n = Some (s, r') \<longrightarrow> zero_tail r'))
    \<and> (\<exists>r'. bignum_add r a b = Some (1, r') \<and> zero_tail r')
    \<and> (\<forall>s r'. bignum_add_int ok r a n = Some (s, r') \<longrightarrow> zero_tail r')
    \<and> (\<forall>s r'. bignum_mult ok r a b = Some (s, r') \<longrightarrow> zero_tail r')
    \<and> (\<forall>s r'. bignum_mult_int ok r a n = Some (s, r') \<longrightarrow> zero_tail r')
    \<and> (\<forall>s r'. bignum_divide ok r a b = Some (s, r') \<longrightarrow> zero_tail r')
    \<and> (\<forall>s r'. bignum_int_divide ok r n b = Some (s, r') \<longrightarrow> zero_tail r')
    \<and> (\<forall>s r'. bignum_divide_int ok r a n = Some (s, r') \<longrightarrow> zero_tail r')
    \<and> bignum_add (bignum_init 3)
         \<lparr>power10 = 0, sig_digs = 1, digits = [1, 5, 0], precision = 3\<rparr>
         \<lparr>power10 = 0, sig_digs = 2, digits = [1, 1, 0], precision = 3\<rparr>
       = Some (1, \<lparr>power10 = 0, sig_digs = 2, digits = [2, 6, 0], precision = 3\<rparr>)"
proof -
  have i: "zero_tail (bignum_init p)" by (simp add: zero_tail_def bignum_init_def)
  obtain r0 where r0: "bignum_reset r = Some r0" "well_formed r0" "sig_digs r0 = 0"
      "\<forall>d \<in> set (digits r0). d = 0" "precision r0 = precision r"
      "digits r0 = replicate (sig_digs r) 0 @ drop (sig_digs r) (digits r)"
    using reset_well_formed [OF assms(1)] by blast
  have rs: "\<exists>r0. bignum_reset r = Some r0 \<and> zero_tail r0
            \<and> digits r0 = replicate (sig_digs r) 0 @ drop (sig_digs r) (digits r)
            \<and> (\<forall>r'. bignum_set r0 a = Some r' \<longrightarrow> zero_tail r')
            \<and> (\<forall>s r'. bignum_set_int ok r0 n = Some (s, r') \<longrightarrow> zero_tail r')"
    using r0 bignum_set_zero_tail [of r0 a] bignum_set_int_zero_tail [of ok r0 n]
    by (auto simp: well_formed_def)
  have ad: "\<exists>r'. bignum_add r a b = Some (1, r') \<and> zero_tail r'"
    using bignum_add_zero_tail [OF assms] by blast
  have ai: "\<forall>s r'. bignum_add_int ok r a n = Some (s, r') \<longrightarrow> zero_tail r'"
    using bignum_add_int_zero_tail [OF _ assms(1,2,4)] by blast
  have mu: "\<forall>s r'. bignum_mult ok r a b = Some (s, r') \<longrightarrow> zero_tail r'"
    using bignum_mult_zero_tail [OF _ assms(1)] by blast
  have mi: "\<forall>s r'. bignum_mult_int ok r a n = Some (s, r') \<longrightarrow> zero_tail r'"
    using bignum_mult_int_zero_tail [OF _ assms(1)] by blast
  have dv: "\<forall>s r'. bignum_divide ok r a b = Some (s, r') \<longrightarrow> zero_tail r'"
    using bignum_divide_zero_tail [OF _ assms(1)] by blast
  have di: "\<forall>s r'. bignum_int_divide ok r n b = Some (s, r') \<longrightarrow> zero_tail r'"
    using bignum_int_divide_zero_tail [OF _ assms(1)] by blast
  have dn: "\<forall>s r'. bignum_divide_int ok r a n = Some (s, r') \<longrightarrow> zero_tail r'"
    using bignum_divide_int_zero_tail [OF _ assms(1)] by blast
  from i rs ad ai mu mi dv di dn add_reads_past_sig_digs show ?thesis by (intro conjI)
qed

theorem zero_tail_preserved_witness:
  "well_formed (bignum_init 4)
   \<and> well_formed \<lparr>power10 = 1, sig_digs = 3, digits = [1, 2, 5, 0], precision = 4\<rparr>
   \<and> well_formed \<lparr>power10 = 0, sig_digs = 2, digits = [1, 6, 0, 0], precision = 4\<rparr>
   \<and> bignum_add (bignum_init 4)
        \<lparr>power10 = 1, sig_digs = 3, digits = [1, 2, 5, 0], precision = 4\<rparr>
        \<lparr>power10 = 0, sig_digs = 2, digits = [1, 6, 0, 0], precision = 4\<rparr>
      = Some (1, \<lparr>power10 = 1, sig_digs = 3, digits = [1, 4, 1, 0], precision = 4\<rparr>)
   \<and> zero_tail \<lparr>power10 = 1, sig_digs = 3, digits = [1, 4, 1, 0], precision = 4\<rparr>
   \<and> bignum_mult True (bignum_init 4)
        \<lparr>power10 = 1, sig_digs = 3, digits = [1, 2, 5, 0], precision = 4\<rparr>
        \<lparr>power10 = 0, sig_digs = 2, digits = [1, 6, 0, 0], precision = 4\<rparr>
      = Some (1, \<lparr>power10 = 1, sig_digs = 1, digits = [2, 0, 0, 0], precision = 4\<rparr>)
   \<and> zero_tail \<lparr>power10 = 1, sig_digs = 1, digits = [2, 0, 0, 0], precision = 4\<rparr>
   \<and> bignum_divide True (bignum_init 4)
        \<lparr>power10 = 1, sig_digs = 3, digits = [1, 2, 5, 0], precision = 4\<rparr>
        \<lparr>power10 = 0, sig_digs = 2, digits = [1, 6, 0, 0], precision = 4\<rparr>
      = Some (1, \<lparr>power10 = 0, sig_digs = 4, digits = [7, 8, 1, 2], precision = 4\<rparr>)
   \<and> zero_tail \<lparr>power10 = 0, sig_digs = 4, digits = [7, 8, 1, 2], precision = 4\<rparr>"
proof -
  let ?r = "bignum_init 4"
  let ?a = "\<lparr>power10 = 1, sig_digs = 3, digits = [1, 2, 5, 0], precision = 4\<rparr>"
  let ?b = "\<lparr>power10 = 0, sig_digs = 2, digits = [1, 6, 0, 0], precision = 4\<rparr>"
  have w: "well_formed ?r" "well_formed ?a" "well_formed ?b"
    "precision ?a = precision ?r" "precision ?b = precision ?r"
    by (simp_all add: well_formed_def zero_tail_def bignum_init_def)
  have e: "bignum_add ?r ?a ?b
           = Some (1, \<lparr>power10 = 1, sig_digs = 3, digits = [1, 4, 1, 0], precision = 4\<rparr>)"
    "bignum_mult True ?r ?a ?b
     = Some (1, \<lparr>power10 = 1, sig_digs = 1, digits = [2, 0, 0, 0], precision = 4\<rparr>)"
    "bignum_divide True ?r ?a ?b
     = Some (1, \<lparr>power10 = 0, sig_digs = 4, digits = [7, 8, 1, 2], precision = 4\<rparr>)"
    by code_simp+
  show ?thesis
    using w(1,2,3) e zero_tail_preserved [OF w, of 4 True 0] by auto
qed

text \<open>
  \<open>bignum_set\<close> into a destination that has not been reset: the destination holds 12,
  the source 5, both with zeros behind their digits; afterwards the destination has
  one significant digit and holds \<open>5, 2, 0\<close>.
\<close>

theorem zero_tail_preserved_counterexample:
  "zero_tail \<lparr>power10 = 1, sig_digs = 2, digits = [1, 2, 0], precision = 3\<rparr>
   \<and> zero_tail \<lparr>power10 = 0, sig_digs = 1, digits = [5, 0, 0], precision = 3\<rparr>
   \<and> bignum_set \<lparr>power10 = 1, sig_digs = 2, digits = [1, 2, 0], precision = 3\<rparr>
        \<lparr>power10 = 0, sig_digs = 1, digits = [5, 0, 0], precision = 3\<rparr>
      = Some \<lparr>power10 = 0, sig_digs = 1, digits = [5, 2, 0], precision = 3\<rparr>
   \<and> \<not> zero_tail \<lparr>power10 = 0, sig_digs = 1, digits = [5, 2, 0], precision = 3\<rparr>"
  by code_simp

end
